theory Spec2Isabelle
  imports Main "HOL-Library.Word"
begin

unbundle bit_operations_syntax

section \<open>Block primitives\<close>

type_synonym u8 = "8 word"
type_synonym u16 = "16 word"
type_synonym u32 = "32 word"
type_synonym u64 = "64 word"

text \<open>Modelled from the spec: the macro \<open>LOGICAL_BLOCK_SIZE\<close> (walb/block_size.h is not
  among the sources); a logical block is 512 bytes.\<close>

definition LOGICAL_BLOCK_SIZE :: nat where
  "LOGICAL_BLOCK_SIZE = 512"

text \<open>Modelled from the spec: \<open>capacity_pb(pbs, lb) = ceil(lb * 512 / pbs)\<close> and the number
  of logical blocks in a physical block (walb/block_size.h is not among the sources).\<close>

definition capacity_pb :: "nat \<Rightarrow> nat \<Rightarrow> nat" where
  "capacity_pb pbs lb = (lb * LOGICAL_BLOCK_SIZE + pbs - 1) div pbs"

definition n_lb_in_pb :: "nat \<Rightarrow> nat" where
  "n_lb_in_pb pbs = pbs div LOGICAL_BLOCK_SIZE"

section \<open>Diff records (walb diff base utilities)\<close>

text \<open>\<open>struct walb_diff_record\<close>, with the field widths of the accessors of
  \<open>walb::diff::Record\<close>. The selectors of the flag and checksum fields carry a prefix, since
  the log record below has fields of the same names.\<close>

record walb_diff_record =
  io_address :: u64
  io_blocks :: u16
  dflags :: u8
  compression_type :: u8
  data_offset :: u32
  data_size :: u32
  dchecksum :: u32

text \<open>Modelled from the spec: the flag bits \<open>EXIST\<close>, \<open>ALLZERO\<close>, \<open>DISCARD\<close> in this
  order, \<open>WALB_DIFF_FLAG(name) = 1 << shift\<close>, and the compression type \<open>NONE = 0\<close>
  (walb_diff.h is not among the sources).\<close>

definition WALB_DIFF_FLAG_EXIST :: u8 where "WALB_DIFF_FLAG_EXIST = 1"
definition WALB_DIFF_FLAG_ALLZERO :: u8 where "WALB_DIFF_FLAG_ALLZERO = 2"
definition WALB_DIFF_FLAG_DISCARD :: u8 where "WALB_DIFF_FLAG_DISCARD = 4"
definition WALB_DIFF_CMPR_NONE :: u8 where "WALB_DIFF_CMPR_NONE = 0"

definition init_diff :: walb_diff_record where
  "init_diff = \<lparr> io_address = 0, io_blocks = 0, dflags = WALB_DIFF_FLAG_EXIST,
     compression_type = 0, data_offset = 0, data_size = 0, dchecksum = 0 \<rparr>"

definition endIoAddress :: "walb_diff_record \<Rightarrow> u64" where
  "endIoAddress r = io_address r + ucast (io_blocks r)"

definition isCompressed :: "walb_diff_record \<Rightarrow> bool" where
  "isCompressed r \<longleftrightarrow> compression_type r \<noteq> WALB_DIFF_CMPR_NONE"

definition exists_diff :: "walb_diff_record \<Rightarrow> bool" where
  "exists_diff r \<longleftrightarrow> (dflags r AND WALB_DIFF_FLAG_EXIST) \<noteq> 0"

definition isAllZero :: "walb_diff_record \<Rightarrow> bool" where
  "isAllZero r \<longleftrightarrow> (dflags r AND WALB_DIFF_FLAG_ALLZERO) \<noteq> 0"

definition isDiscard :: "walb_diff_record \<Rightarrow> bool" where
  "isDiscard r \<longleftrightarrow> (dflags r AND WALB_DIFF_FLAG_DISCARD) \<noteq> 0"

definition isNormal :: "walb_diff_record \<Rightarrow> bool" where
  "isNormal r \<longleftrightarrow> \<not> isAllZero r \<and> \<not> isDiscard r"

text \<open>\<open>Record::isValid\<close>. The argument \<open>cmprMax\<close> stands for the enum value
  \<open>WALB_DIFF_CMPR_MAX\<close>, whose declaration is not among the sources. In the branch of a
  record that is not normal, a data size other than 0 is only logged: the branch has no
  \<open>return false\<close>, and falls through to \<open>return true\<close>.\<close>

definition isValid :: "nat \<Rightarrow> walb_diff_record \<Rightarrow> bool" where
  "isValid cmprMax r =
     (if \<not> exists_diff r then False
      else if \<not> isNormal r then
        (if isAllZero r \<and> isDiscard r then False
         else True)
      else if cmprMax \<le> unat (compression_type r) then False
      else if io_blocks r = 0 then False
      else True)"

definition setAllZero :: "walb_diff_record \<Rightarrow> walb_diff_record" where
  "setAllZero r = r\<lparr>dflags := (dflags r OR WALB_DIFF_FLAG_ALLZERO) AND NOT WALB_DIFF_FLAG_DISCARD\<rparr>"

definition setDiscard :: "walb_diff_record \<Rightarrow> walb_diff_record" where
  "setDiscard r = r\<lparr>dflags := (dflags r AND NOT WALB_DIFF_FLAG_ALLZERO) OR WALB_DIFF_FLAG_DISCARD\<rparr>"

section \<open>Log records and the log-pack header (walb log utilities)\<close>

text \<open>Modelled from the spec: \<open>struct walb_log_record\<close> and \<open>struct walb_logpack_header\<close>
  (walb/log_record.h is not among the sources), with the field widths of the spec's data model,
  and the flag bits \<open>EXIST\<close>, \<open>PADDING\<close>, \<open>DISCARD\<close> in this order. The inline array
  \<open>record[]\<close> of the header is a function from the index.\<close>

record walb_log_record =
  checksum :: u32
  lsid :: u64
  lsid_local :: u32
  flags :: u32
  offset :: u64
  io_size :: u32

definition LOG_RECORD_EXIST :: nat where "LOG_RECORD_EXIST = 0"
definition LOG_RECORD_PADDING :: nat where "LOG_RECORD_PADDING = 1"
definition LOG_RECORD_DISCARD :: nat where "LOG_RECORD_DISCARD = 2"

definition test_bit_u32 :: "nat \<Rightarrow> u32 \<Rightarrow> bool" where
  "test_bit_u32 nr w \<longleftrightarrow> (w AND push_bit nr 1) \<noteq> 0"

definition set_bit_u32 :: "nat \<Rightarrow> u32 \<Rightarrow> u32" where
  "set_bit_u32 nr w = w OR push_bit nr 1"

definition isExist :: "walb_log_record \<Rightarrow> bool" where
  "isExist r = test_bit_u32 LOG_RECORD_EXIST (flags r)"

definition isPadding :: "walb_log_record \<Rightarrow> bool" where
  "isPadding r = test_bit_u32 LOG_RECORD_PADDING (flags r)"

definition isDiscardLog :: "walb_log_record \<Rightarrow> bool" where
  "isDiscardLog r = test_bit_u32 LOG_RECORD_DISCARD (flags r)"

definition hasData :: "walb_log_record \<Rightarrow> bool" where
  "hasData r \<longleftrightarrow> isExist r \<and> \<not> isDiscardLog r"

definition ioSizeLb :: "walb_log_record \<Rightarrow> nat" where
  "ioSizeLb r = unat (io_size r)"

definition ioSizePb :: "walb_log_record \<Rightarrow> nat \<Rightarrow> nat" where
  "ioSizePb r pbs = capacity_pb pbs (unat (io_size r))"

record walb_logpack_header =
  h_checksum :: u32
  sector_type :: u16
  total_io_size :: u32
  logpack_lsid :: u64
  n_records :: u16
  n_padding :: u16
  records :: "nat \<Rightarrow> walb_log_record"

record LogPackHeader =
  lp_header :: walb_logpack_header
  lp_pbs :: u32
  lp_salt :: u32

definition header_pbs :: "LogPackHeader \<Rightarrow> nat" where
  "header_pbs h = unat (lp_pbs h)"

text \<open>The accessor \<open>totalIoSize()\<close> returns \<open>uint16_t\<close>: the low 16 bits of the field.\<close>

definition totalIoSize :: "LogPackHeader \<Rightarrow> nat" where
  "totalIoSize h = unat (ucast (total_io_size (lp_header h)) :: u16)"

definition nRecords :: "LogPackHeader \<Rightarrow> nat" where
  "nRecords h = unat (n_records (lp_header h))"

definition header_nPadding :: "LogPackHeader \<Rightarrow> nat" where
  "header_nPadding h = unat (n_padding (lp_header h))"

text \<open>The exceptions of the log-pack header and of the block container below; a division
  by zero (a physical block size under 512 in \<open>size % n_lb_in_pb(pbs)\<close>) is an error of
  the model too.\<close>

datatype error =
    NormalIoZeroSized
  | DiscardIoZeroSized
  | PaddingNotAligned
  | DivisionByZero
  | PbsIsZero
  | IoSizeLbTooLarge
  | IndexOutOfRange
  | LsidMismatch
  | UuidMismatch

text \<open>\<open>LogPackHeader::addNormalIo\<close>, \<open>addDiscardIo\<close> and \<open>addPadding\<close>. The arguments
  \<open>maxRecs\<close> and \<open>maxTotal\<close> stand for \<open>max_n_log_record_in_sector(pbs())\<close> and
  \<open>MAX_TOTAL_IO_SIZE_IN_LOGPACK_HEADER\<close>, whose definitions are not among the sources.
  The result is the exception, or the returned flag with the header as the call leaves it.\<close>

definition addNormalIo ::
  "nat \<Rightarrow> nat \<Rightarrow> LogPackHeader \<Rightarrow> u64 \<Rightarrow> u16 \<Rightarrow> error + (bool \<times> LogPackHeader)" where
  "addNormalIo maxRecs maxTotal h off sz =
     (if maxRecs \<le> nRecords h then Inr (False, h)
      else if maxTotal < totalIoSize h + capacity_pb (header_pbs h) (unat sz) then Inr (False, h)
      else if sz = 0 then Inl NormalIoZeroSized
      else
        let hd = lp_header h;
            pos = nRecords h;
            ll = total_io_size hd + 1;
            r = \<lparr> checksum = 0, lsid = logpack_lsid hd + ucast ll, lsid_local = ll,
                  flags = set_bit_u32 LOG_RECORD_EXIST 0, offset = off, io_size = ucast sz \<rparr>
        in Inr (True, h\<lparr>lp_header := hd\<lparr>
              records := (records hd)(pos := r),
              n_records := n_records hd + 1,
              total_io_size := total_io_size hd + of_nat (capacity_pb (header_pbs h) (unat sz))\<rparr>\<rparr>))"

definition addDiscardIo ::
  "nat \<Rightarrow> LogPackHeader \<Rightarrow> u64 \<Rightarrow> u16 \<Rightarrow> error + (bool \<times> LogPackHeader)" where
  "addDiscardIo maxRecs h off sz =
     (if maxRecs \<le> nRecords h then Inr (False, h)
      else if sz = 0 then Inl DiscardIoZeroSized
      else
        let hd = lp_header h;
            pos = nRecords h;
            ll = total_io_size hd + 1;
            r = \<lparr> checksum = 0, lsid = logpack_lsid hd + ucast ll, lsid_local = ll,
                  flags = set_bit_u32 LOG_RECORD_DISCARD (set_bit_u32 LOG_RECORD_EXIST 0),
                  offset = off, io_size = ucast sz \<rparr>
        in Inr (True, h\<lparr>lp_header := hd\<lparr>
              records := (records hd)(pos := r),
              n_records := n_records hd + 1\<rparr>\<rparr>))"

definition addPadding ::
  "nat \<Rightarrow> nat \<Rightarrow> LogPackHeader \<Rightarrow> u16 \<Rightarrow> error + (bool \<times> LogPackHeader)" where
  "addPadding maxRecs maxTotal h sz =
     (if maxRecs \<le> nRecords h then Inr (False, h)
      else if maxTotal < totalIoSize h + capacity_pb (header_pbs h) (unat sz) then Inr (False, h)
      else if 0 < header_nPadding h then Inr (False, h)
      else if n_lb_in_pb (header_pbs h) = 0 then Inl DivisionByZero
      else if unat sz mod n_lb_in_pb (header_pbs h) \<noteq> 0 then Inl PaddingNotAligned
      else
        let hd = lp_header h;
            pos = nRecords h;
            ll = total_io_size hd + 1;
            r = \<lparr> checksum = 0, lsid = logpack_lsid hd + ucast ll, lsid_local = ll,
                  flags = set_bit_u32 LOG_RECORD_PADDING (set_bit_u32 LOG_RECORD_EXIST 0),
                  offset = 0, io_size = ucast sz \<rparr>
        in Inr (True, h\<lparr>lp_header := hd\<lparr>
              records := (records hd)(pos := r),
              n_records := n_records hd + 1,
              total_io_size := total_io_size hd + of_nat (capacity_pb (header_pbs h) (unat sz)),
              n_padding := n_padding hd + 1\<rparr>\<rparr>))"

text \<open>\<open>LogPackHeader::init(lsid)\<close>: the block zeroed, then the lsid and the sector type set.
  Modelled from the spec: \<open>SECTOR_TYPE_LOGPACK = 1\<close>.\<close>

definition zero_log_record :: walb_log_record where
  "zero_log_record = \<lparr> checksum = 0, lsid = 0, lsid_local = 0, flags = 0, offset = 0, io_size = 0 \<rparr>"

definition init_header :: "LogPackHeader \<Rightarrow> u64 \<Rightarrow> LogPackHeader" where
  "init_header h l = h\<lparr>lp_header := \<lparr> h_checksum = 0, sector_type = 1, total_io_size = 0,
      logpack_lsid = l, n_records = 0, n_padding = 0, records = (\<lambda>_. zero_log_record) \<rparr>\<rparr>"

text \<open>A header as \<open>init(100)\<close> leaves it, for a physical block size of 4096.\<close>

definition example_header :: LogPackHeader where
  "example_header = \<lparr> lp_header = \<lparr> h_checksum = 0, sector_type = 1, total_io_size = 0,
      logpack_lsid = 100, n_records = 0, n_padding = 0, records = (\<lambda>_. zero_log_record) \<rparr>,
      lp_pbs = 4096, lp_salt = 0 \<rparr>"

section \<open>The diff merger\<close>

text \<open>\<open>DiffMerger::shouldMerge\<close>, with the members \<open>doneAddr_\<close> (\<open>uint64_t\<close>) and
  \<open>searchLen_\<close> (\<open>size_t\<close>) as arguments: the sum is a 64-bit sum.\<close>

definition shouldMerge :: "u64 \<Rightarrow> u64 \<Rightarrow> walb_diff_record \<Rightarrow> u64 \<Rightarrow> bool" where
  "shouldMerge doneAddr searchLen r minAddr \<longleftrightarrow>
     io_address r < doneAddr + searchLen \<and> endIoAddress r \<le> minAddr"

text \<open>An input stream (\<open>Wdiff\<close>) is the list of the records it still holds, its front
  record first, each with its IO data. \<open>Wdiff::currentAddress\<close>: the address of the front
  record, \<open>UINT64_MAX\<close> at the end of the stream.\<close>

type_synonym 'io wdiff = "(walb_diff_record \<times> 'io) list"

definition currentAddress :: "'io wdiff \<Rightarrow> u64" where
  "currentAddress w = (case w of [] \<Rightarrow> - 1 | (r, _) # _ \<Rightarrow> io_address r)"

text \<open>Modelled from the spec: \<open>DiffMerger::getMinimumAddr\<close> and the steps 1.a to 1.c of
  the main loop (\<open>DiffMerger::tryMoveToDiffMemory\<close>), which the source declares and whose
  bodies are not among the sources. The minimum front address over the open streams, or
  \<open>u64::MAX\<close>; then for each open stream in oldest-first order, while the stream is not empty
  and \<open>shouldMerge\<close> holds of its front record, the record is popped and added to the
  scratch diff map; then \<open>doneAddr\<close> is set to the minimum. The diff map is any type
  \<open>'m\<close> with its \<open>add\<close>.\<close>

definition getMinimumAddr :: "'io wdiff list \<Rightarrow> u64" where
  "getMinimumAddr ws = fold (\<lambda>w m. min (currentAddress w) m) ws (- 1)"

fun moveWhile ::
  "(walb_diff_record \<Rightarrow> 'io \<Rightarrow> 'm \<Rightarrow> 'm) \<Rightarrow> (walb_diff_record \<Rightarrow> bool) \<Rightarrow> 'io wdiff \<Rightarrow> 'm
    \<Rightarrow> 'io wdiff \<times> 'm" where
  "moveWhile add P [] M = ([], M)"
| "moveWhile add P ((r, io) # w) M =
     (if P r then moveWhile add P w (add r io M) else ((r, io) # w, M))"

fun moveStreams ::
  "(walb_diff_record \<Rightarrow> 'io \<Rightarrow> 'm \<Rightarrow> 'm) \<Rightarrow> (walb_diff_record \<Rightarrow> bool) \<Rightarrow> 'io wdiff list \<Rightarrow> 'm
    \<Rightarrow> 'io wdiff list \<times> 'm" where
  "moveStreams add P [] M = ([], M)"
| "moveStreams add P (w # ws) M =
     (case moveWhile add P w M of (w', M1) \<Rightarrow>
        (case moveStreams add P ws M1 of (ws', M2) \<Rightarrow> (w' # ws', M2)))"

definition tryMoveToDiffMemory ::
  "(walb_diff_record \<Rightarrow> 'io \<Rightarrow> 'm \<Rightarrow> 'm) \<Rightarrow> u64 \<Rightarrow> u64 \<Rightarrow> 'io wdiff list \<Rightarrow> 'm
    \<Rightarrow> 'io wdiff list \<times> 'm \<times> u64" where
  "tryMoveToDiffMemory add doneAddr searchLen ws M =
     (let minAddr = getMinimumAddr ws in
      case moveStreams add (\<lambda>r. shouldMerge doneAddr searchLen r minAddr) ws M of
        (ws', M') \<Rightarrow> (ws', M', minAddr))"

section \<open>Log blocks\<close>

text \<open>A block buffer (\<open>LogBlock\<close>, \<open>AlignedArray\<close>): its address in memory and its
  bytes. \<open>LogBlockShared\<close>: the physical block size and the blocks, each of which must have
  that size.\<close>

record LogBlock =
  baddr :: nat
  bdata :: "u8 list"

record LogBlockShared =
  bs_pbs :: nat
  bs_data :: "LogBlock list"

definition nBlocks :: "LogBlockShared \<Rightarrow> nat" where
  "nBlocks b = length (bs_data b)"

text \<open>Modelled from the spec: \<open>cybozu::util::calcIsAllZero\<close>, byte-wise equality to zero,
  and the checksum of the block primitives (\<open>checksumPartial\<close>, \<open>checksumFinish\<close>,
  \<open>calcChecksum\<close>): a sum of the little-endian 32-bit words of the buffer, the tail bytes
  padded with zeros, seeded with the salt and negated at the end (util.hpp and checksum.hpp
  are not among the sources).\<close>

definition calcIsAllZero_bytes :: "u8 list \<Rightarrow> bool" where
  "calcIsAllZero_bytes bs \<longleftrightarrow> list_all (\<lambda>b. b = 0) bs"

definition le32 :: "u8 \<Rightarrow> u8 \<Rightarrow> u8 \<Rightarrow> u8 \<Rightarrow> u32" where
  "le32 b0 b1 b2 b3 =
     ucast b0 OR push_bit 8 (ucast b1) OR push_bit 16 (ucast b2) OR push_bit 24 (ucast b3)"

fun checksumPartial :: "u8 list \<Rightarrow> u32 \<Rightarrow> u32" where
  "checksumPartial (b0 # b1 # b2 # b3 # bs) csum = checksumPartial bs (csum + le32 b0 b1 b2 b3)"
| "checksumPartial [b0, b1, b2] csum = csum + le32 b0 b1 b2 0"
| "checksumPartial [b0, b1] csum = csum + le32 b0 b1 0 0"
| "checksumPartial [b0] csum = csum + le32 b0 0 0 0"
| "checksumPartial [] csum = csum"

definition checksumFinish :: "u32 \<Rightarrow> u32" where
  "checksumFinish csum = NOT csum + 1"

definition calcChecksum :: "u8 list \<Rightarrow> u32 \<Rightarrow> u32" where
  "calcChecksum bs salt = checksumFinish (checksumPartial bs salt)"

text \<open>\<open>LogBlockShared::get\<close> with its range check, and \<open>LogBlockShared::calcIsAllZero\<close>:
  the check of the block size, the check of the IO size against the blocks held, and the
  loop over the blocks, which reads \<open>min(pbs, remaining)\<close> bytes of each.\<close>

definition get_block :: "LogBlockShared \<Rightarrow> nat \<Rightarrow> error + LogBlock" where
  "get_block b idx =
     (if bs_pbs b = 0 then Inl PbsIsZero
      else if nBlocks b \<le> idx then Inl IndexOutOfRange
      else Inr (bs_data b ! idx))"

function calcIsAllZero_loop :: "LogBlockShared \<Rightarrow> nat \<Rightarrow> nat \<Rightarrow> error + bool" where
  "calcIsAllZero_loop b remaining i =
     (if 0 < remaining then
        (case get_block b i of
           Inl e \<Rightarrow> Inl e
         | Inr blk \<Rightarrow>
             let s = min (bs_pbs b) remaining in
             if \<not> calcIsAllZero_bytes (take s (bdata blk)) then Inr False
             else calcIsAllZero_loop b (remaining - s) (i + 1))
      else Inr True)"
  by pat_completeness auto
termination
  by (relation "measure (\<lambda>(b, remaining, i). remaining)")
     (auto simp: get_block_def split: if_splits)

declare calcIsAllZero_loop.simps [simp del]

definition calcIsAllZero :: "LogBlockShared \<Rightarrow> nat \<Rightarrow> error + bool" where
  "calcIsAllZero b sizeLb =
     (if bs_pbs b = 0 then Inl PbsIsZero
      else if nBlocks b * bs_pbs b < sizeLb * LOGICAL_BLOCK_SIZE then Inl IoSizeLbTooLarge
      else calcIsAllZero_loop b (sizeLb * LOGICAL_BLOCK_SIZE) 0)"

section \<open>The converter from logs to diffs\<close>

text \<open>The IO data of a diff (\<open>DiffIo\<close>; in the diff base utilities \<open>IoData\<close>): the blocks,
  the compression type and the bytes. \<open>set\<close> takes the blocks and the compression type of a
  normal record, 0 and \<open>NONE\<close> otherwise, and resizes the data to the record's data size;
  \<open>calcChecksum\<close> is 0 for an IO of no blocks.\<close>

record DiffIo =
  ioBlocks :: u16
  compressionType :: u8
  io_data :: "u8 list"

definition resize_bytes :: "nat \<Rightarrow> u8 list \<Rightarrow> u8 list" where
  "resize_bytes n bs = take n bs @ replicate (n - length bs) 0"

definition set_io :: "walb_diff_record \<Rightarrow> DiffIo \<Rightarrow> DiffIo" where
  "set_io r io =
     (if isNormal r
      then \<lparr> ioBlocks = io_blocks r, compressionType = compression_type r,
             io_data = resize_bytes (unat (data_size r)) (io_data io) \<rparr>
      else \<lparr> ioBlocks = 0, compressionType = WALB_DIFF_CMPR_NONE,
             io_data = resize_bytes (unat (data_size r)) (io_data io) \<rparr>)"

definition calcChecksum_io :: "DiffIo \<Rightarrow> u32" where
  "calcChecksum_io io = (if ioBlocks io = 0 then 0 else calcChecksum (io_data io) 0)"

text \<open>The copy loop of \<open>convertLogToDiff\<close>: block \<open>i\<close> is copied to the buffer at \<open>off\<close>,
  \<open>min(pbs, remaining)\<close> bytes of it.\<close>

definition memcpy_at :: "u8 list \<Rightarrow> nat \<Rightarrow> u8 list \<Rightarrow> u8 list" where
  "memcpy_at buf off src = take off buf @ src @ drop (off + length src) buf"

function copy_loop ::
  "nat \<Rightarrow> LogBlockShared \<Rightarrow> nat \<Rightarrow> nat \<Rightarrow> nat \<Rightarrow> nat \<Rightarrow> u8 list \<Rightarrow> error + u8 list" where
  "copy_loop pbs b nPb i off remaining buf =
     (if i < nPb then
        (let copySize = min pbs remaining in
         case get_block b i of
           Inl e \<Rightarrow> Inl e
         | Inr blk \<Rightarrow>
             copy_loop pbs b nPb (i + 1) (off + copySize) (remaining - copySize)
               (memcpy_at buf off (take copySize (bdata blk))))
      else Inr buf)"
  by pat_completeness auto
termination
  by (relation "measure (\<lambda>(pbs, b, nPb, i, off, remaining, buf). nPb - i)") auto

declare copy_loop.simps [simp del]

text \<open>\<open>convertLogToDiff\<close>: \<open>None\<close> is the result false of a padding record; otherwise the
  diff record and the diff IO that the call leaves in its two output arguments, or the
  exception of the block container. The arguments \<open>mrec\<close> and \<open>diffIo\<close> are written
  before they are read, but for the data of \<open>diffIo\<close>, which \<open>set\<close> resizes.\<close>

definition convertLogToDiff ::
  "nat \<Rightarrow> walb_log_record \<Rightarrow> LogBlockShared \<Rightarrow> DiffIo
    \<Rightarrow> error + (walb_diff_record \<times> DiffIo) option" where
  "convertLogToDiff pbs r blockS diffIo =
     (if isPadding r then Inr None
      else
        let mrec = init_diff\<lparr>io_address := offset r, io_blocks := ucast (io_size r)\<rparr> in
        if isDiscardLog r then
          (let mrec1 = (setDiscard mrec)\<lparr>data_size := 0\<rparr>
           in Inr (Some (mrec1, set_io mrec1 diffIo)))
        else
          (case calcIsAllZero blockS (ioSizeLb r) of
             Inl e \<Rightarrow> Inl e
           | Inr True \<Rightarrow>
               (let mrec1 = (setAllZero mrec)\<lparr>data_size := 0\<rparr>
                in Inr (Some (mrec1, set_io mrec1 diffIo)))
           | Inr False \<Rightarrow>
               (let ioSizeB = ioSizeLb r * LOGICAL_BLOCK_SIZE in
                case copy_loop pbs blockS (ioSizePb r pbs) 0 0 ioSizeB (replicate ioSizeB 0) of
                  Inl e \<Rightarrow> Inl e
                | Inr buf \<Rightarrow>
                    (let diffIo1 = (set_io mrec diffIo)\<lparr>io_data := buf\<rparr>;
                         mrec1 = mrec\<lparr>compression_type := WALB_DIFF_CMPR_NONE, data_offset := 0,
                                   data_size := of_nat ioSizeB\<rparr>
                     in Inr (Some (mrec1\<lparr>dchecksum := calcChecksum_io diffIo1\<rparr>, diffIo1))))))"

text \<open>The blocks of a container are well formed when the block size is not 0 and every
  block has that size, as the class requires; the payload of a record is then the first
  \<open>io_size * 512\<close> bytes of its blocks.\<close>

definition wf_blocks :: "LogBlockShared \<Rightarrow> bool" where
  "wf_blocks b \<longleftrightarrow> 0 < bs_pbs b \<and> list_all (\<lambda>blk. length (bdata blk) = bs_pbs b) (bs_data b)"

definition payload :: "walb_log_record \<Rightarrow> LogBlockShared \<Rightarrow> u8 list" where
  "payload r b = take (ioSizeLb r * LOGICAL_BLOCK_SIZE) (concat (map bdata (bs_data b)))"


definition ex_rec :: "u32 \<Rightarrow> walb_log_record" where
  "ex_rec f = \<lparr> checksum = 0, lsid = 101, lsid_local = 1, flags = f, offset = 7, io_size = 1 \<rparr>"

definition ex_blocks :: "u8 \<Rightarrow> LogBlockShared" where
  "ex_blocks x = \<lparr> bs_pbs = 512, bs_data = [\<lparr> baddr = 0, bdata = replicate 512 x \<rparr>] \<rparr>"



text \<open>Modelled from the spec: the wlog input as \<open>log::Reader\<close> presents it (walb_log_file.hpp
  is not among the sources). A wlog file gives, from its header, the uuid, the physical block
  size and the begin lsid; then its log records in order, each with its blocks; and at the
  end the lsid that \<open>endLsid()\<close> reports. The input of a conversion is the list of the
  wlog files concatenated on the descriptor: reading a header at its end is the \<open>EofError\<close>.\<close>

record wlog_file =
  wl_uuid :: "u8 list"
  wl_pbs :: nat
  wl_begin_lsid :: u64
  wl_logs :: "(walb_log_record \<times> LogBlockShared) list"
  wl_end_lsid :: u64

text \<open>Modelled from the spec: \<open>MemoryData\<close> (walb_diff_mem.hpp is not among the sources),
  kept here as the uuid of its header and the records added to it, in the order of the calls
  of \<open>add\<close>. The state of \<open>Converter::convert\<close> is this with the two variables
  \<open>lsid\<close> and \<open>writtenBlocks\<close> of its loop.\<close>

record conv_state =
  cv_lsid :: u64
  cv_writtenBlocks :: u64
  cv_uuid :: "u8 list"
  cv_added :: "(walb_diff_record \<times> DiffIo) list"

definition new_DiffIo :: DiffIo where
  "new_DiffIo = \<lparr> ioBlocks = 0, compressionType = WALB_DIFF_CMPR_NONE, io_data = [] \<rparr>"

text \<open>The loop of \<open>convertWlog\<close> over the records of one wlog.\<close>

fun convert_logs ::
  "nat \<Rightarrow> (walb_log_record \<times> LogBlockShared) list \<Rightarrow> conv_state \<Rightarrow> error + conv_state" where
  "convert_logs pbs [] st = Inr st"
| "convert_logs pbs ((lrec, blockS) # logs) st =
     (case convertLogToDiff pbs lrec blockS new_DiffIo of
        Inl e \<Rightarrow> Inl e
      | Inr None \<Rightarrow> convert_logs pbs logs st
      | Inr (Some (diffRec, diffIo)) \<Rightarrow>
          convert_logs pbs logs
            (st\<lparr>cv_added := cv_added st @ [(diffRec, diffIo)],
                cv_writtenBlocks := cv_writtenBlocks st + ucast (io_blocks diffRec)\<rparr>))"

text \<open>\<open>Converter::convertWlog\<close> for a wlog whose header has been read: the block allocator
  divides the buffer size by the block size; the first wlog (\<open>lsid = uint64_t(-1)\<close>) sets the
  uuid and the lsid, a later one is checked against them; then the records are converted and
  the lsid becomes the end lsid of the reader.\<close>

definition convertWlog :: "conv_state \<Rightarrow> wlog_file \<Rightarrow> error + conv_state" where
  "convertWlog st f =
     (if wl_pbs f = 0 then Inl DivisionByZero
      else if cv_lsid st = - 1 then
        (case convert_logs (wl_pbs f) (wl_logs f)
                (st\<lparr>cv_uuid := wl_uuid f, cv_lsid := wl_begin_lsid f\<rparr>) of
           Inl e \<Rightarrow> Inl e
         | Inr st' \<Rightarrow> Inr (st'\<lparr>cv_lsid := wl_end_lsid f\<rparr>))
      else if cv_lsid st \<noteq> wl_begin_lsid f then Inl LsidMismatch
      else if cv_uuid st \<noteq> wl_uuid f then Inl UuidMismatch
      else
        (case convert_logs (wl_pbs f) (wl_logs f) st of
           Inl e \<Rightarrow> Inl e
         | Inr st' \<Rightarrow> Inr (st'\<lparr>cv_lsid := wl_end_lsid f\<rparr>)))"

text \<open>The loop of \<open>Converter::convert\<close>: \<open>convertWlog\<close> is called until it returns false,
  at the end of the input. The uuid of the fresh \<open>MemoryData\<close> is an argument.\<close>

fun convert_loop :: "conv_state \<Rightarrow> wlog_file list \<Rightarrow> error + conv_state" where
  "convert_loop st [] = Inr st"
| "convert_loop st (f # fs) =
     (case convertWlog st f of Inl e \<Rightarrow> Inl e | Inr st' \<Rightarrow> convert_loop st' fs)"

definition convert :: "u8 list \<Rightarrow> wlog_file list \<Rightarrow> error + conv_state" where
  "convert uuid0 fs =
     convert_loop \<lparr> cv_lsid = - 1, cv_writtenBlocks = 0, cv_uuid = uuid0, cv_added = [] \<rparr> fs"

text \<open>The check of a concatenation in the spec's words: each wlog after the first begins at
  the end lsid of the one before it, else \<open>LsidMismatch\<close>, and has the uuid of the first,
  else \<open>UuidMismatch\<close>.\<close>

fun concat_check_spec :: "u64 \<Rightarrow> u8 list \<Rightarrow> wlog_file list \<Rightarrow> error option" where
  "concat_check_spec prev_end first_uuid [] = None"
| "concat_check_spec prev_end first_uuid (f # fs) =
     (if wl_begin_lsid f \<noteq> prev_end then Some LsidMismatch
      else if wl_uuid f \<noteq> first_uuid then Some UuidMismatch
      else concat_check_spec (wl_end_lsid f) first_uuid fs)"

text \<open>A wlog is convertible when its block size is not 0 and none of its records raises an
  exception in the conversion.\<close>

definition ex_wlog :: "u8 list \<Rightarrow> u64 \<Rightarrow> u64 \<Rightarrow> wlog_file" where
  "ex_wlog u b e = \<lparr> wl_uuid = u, wl_pbs = 512, wl_begin_lsid = b,
     wl_logs = [(ex_rec 1, ex_blocks 1), (ex_rec 5, ex_blocks 0), (ex_rec 3, ex_blocks 0)],
     wl_end_lsid = e \<rparr>"

definition convertible :: "wlog_file \<Rightarrow> bool" where
  "convertible f \<longleftrightarrow> wl_pbs f \<noteq> 0 \<and>
     list_all (\<lambda>(r, b). \<exists>x. convertLogToDiff (wl_pbs f) r b new_DiffIo = Inr x) (wl_logs f)"

section \<open>The redo engine (wlog-redo)\<close>

text \<open>\<open>class Io\<close>: the target range in bytes (\<open>off_t offset_\<close>, \<open>size_t size_\<close>), the key of
  the asynchronous write, the three flags, the blocks of the payload, the count of overlapping
  IOs (\<open>uint32_t\<close>) and the sequence id. The fields carry the names of the accessors.
  An \<open>IoPtr\<close> is an index into a store of IOs, so that the queues and the overlap set
  share the objects as the shared pointers of the source do.\<close>

record Io =
  ioOffset :: int
  ioSize :: nat
  aioKey :: nat
  isSubmitted :: bool
  isCompleted :: bool
  isOverwritten :: bool
  blocks :: "LogBlock list"
  nOverlapped :: nat
  sequenceId :: nat

type_synonym IoPtr = nat

definition new_Io :: "int \<Rightarrow> nat \<Rightarrow> LogBlock \<Rightarrow> nat \<Rightarrow> Io" where
  "new_Io off sz blk sid = \<lparr> ioOffset = off, ioSize = sz, aioKey = 0, isSubmitted = False,
     isCompleted = False, isOverwritten = False, blocks = [blk], nOverlapped = 0,
     sequenceId = sid \<rparr>"

definition overwritten :: "Io \<Rightarrow> Io" where
  "overwritten io =
     (if \<not> isOverwritten io
      then (if \<not> isSubmitted io then io\<lparr>isOverwritten := True, blocks := []\<rparr>
            else io\<lparr>isOverwritten := True\<rparr>)
      else io)"

text \<open>\<open>Io::canMerge\<close> and \<open>Io::tryMerge\<close>: both IOs have blocks, the target of the second
  starts where the target of the first ends, and the buffer of the second starts where the
  \<open>size_\<close> bytes at the first block of the first end. The result of \<open>tryMerge\<close> is the flag
  with the two IOs as the call leaves them.\<close>

definition canMerge :: "Io \<Rightarrow> Io \<Rightarrow> bool" where
  "canMerge this rhs =
     (if blocks this = [] \<or> blocks rhs = [] then False
      else if ioOffset this + int (ioSize this) \<noteq> ioOffset rhs then False
      else baddr (hd (blocks this)) + ioSize this = baddr (hd (blocks rhs)))"

definition tryMerge :: "Io \<Rightarrow> Io \<Rightarrow> bool \<times> Io \<times> Io" where
  "tryMerge this rhs =
     (if \<not> canMerge this rhs then (False, this, rhs)
      else (True, this\<lparr>ioSize := ioSize this + ioSize rhs, blocks := blocks this @ blocks rhs\<rparr>,
            rhs\<lparr>blocks := []\<rparr>))"

definition isOverlapped :: "Io \<Rightarrow> Io \<Rightarrow> bool" where
  "isOverlapped this rhs \<longleftrightarrow>
     ioOffset this < ioOffset rhs + int (ioSize rhs) \<and>
     ioOffset rhs < ioOffset this + int (ioSize this)"

definition isOverwrittenBy :: "Io \<Rightarrow> Io \<Rightarrow> bool" where
  "isOverwrittenBy this rhs \<longleftrightarrow>
     ioOffset rhs \<le> ioOffset this \<and>
     ioOffset this + int (ioSize this) \<le> ioOffset rhs + int (ioSize rhs)"

text \<open>\<open>class IoQueue\<close>: a queue of IO pointers whose \<open>add\<close> tries to merge the new IO into
  the last one, unless the sum of the sizes exceeds \<open>maxIoSize_\<close>, 1 MiB.\<close>

definition maxIoSize :: nat where
  "maxIoSize = 1024 * 1024"

definition IoQueue_tryMerge :: "Io \<Rightarrow> Io \<Rightarrow> bool \<times> Io \<times> Io" where
  "IoQueue_tryMerge io0 io1 =
     (if maxIoSize < ioSize io0 + ioSize io1 then (False, io0, io1)
      else tryMerge io0 io1)"

definition IoQueue_add :: "(IoPtr \<Rightarrow> Io) \<Rightarrow> IoPtr list \<Rightarrow> IoPtr \<Rightarrow> (IoPtr \<Rightarrow> Io) \<times> IoPtr list" where
  "IoQueue_add st q iop =
     (if q = [] then (st, [iop])
      else
        (case IoQueue_tryMerge (st (last q)) (st iop) of
           (True, io0, io1) \<Rightarrow> (st(last q := io0, iop := io1), q)
         | (False, _, _) \<Rightarrow> (st, q @ [iop])))"

text \<open>\<open>class OverlappedData\<close>: the set of the pairs of offset and pointer of the live IOs,
  a \<open>std::set\<close>, kept as the list of its elements in their order (by offset, then by
  pointer), and the largest size inserted since the set was last empty.\<close>

record OverlappedData =
  olSet :: "(int \<times> IoPtr) list"
  maxSize :: nat

definition pair_less :: "int \<times> IoPtr \<Rightarrow> int \<times> IoPtr \<Rightarrow> bool" where
  "pair_less a b \<longleftrightarrow> fst a < fst b \<or> (fst a = fst b \<and> snd a < snd b)"

fun set_emplace :: "int \<times> IoPtr \<Rightarrow> (int \<times> IoPtr) list \<Rightarrow> (int \<times> IoPtr) list" where
  "set_emplace x [] = [x]"
| "set_emplace x (y # ys) =
     (if pair_less x y then x # y # ys
      else if x = y then y # ys
      else y # set_emplace x ys)"

text \<open>The elements that the loops of \<open>ins\<close> and \<open>del\<close> visit: from the lower bound of
  \<open>(key0, null)\<close> while the offset is under \<open>key1\<close>, where \<open>key0\<close> is the offset of the IO
  less \<open>maxSize_\<close>, or 0, and \<open>key1\<close> is the end of the IO.\<close>

definition search_range :: "OverlappedData \<Rightarrow> Io \<Rightarrow> (int \<times> IoPtr) list" where
  "search_range ol io =
     (let key0 = (if int (maxSize ol) < ioOffset io then ioOffset io - int (maxSize ol) else 0);
          key1 = ioOffset io + int (ioSize io)
      in takeWhile (\<lambda>e. fst e < key1) (dropWhile (\<lambda>e. fst e < key0) (olSet ol)))"

fun ins_loop :: "(IoPtr \<Rightarrow> Io) \<Rightarrow> IoPtr \<Rightarrow> (int \<times> IoPtr) list \<Rightarrow> (IoPtr \<Rightarrow> Io)" where
  "ins_loop st iop [] = st"
| "ins_loop st iop (e # es) =
     (let p = snd e in
      if isOverlapped (st p) (st iop) then
        (let st1 = st(iop := (st iop)\<lparr>nOverlapped := (nOverlapped (st iop) + 1) mod 2 ^ 32\<rparr>);
             st2 = (if isOverwrittenBy (st1 p) (st1 iop) then st1(p := overwritten (st1 p)) else st1)
         in ins_loop st2 iop es)
      else ins_loop st iop es)"

definition ins :: "(IoPtr \<Rightarrow> Io) \<Rightarrow> OverlappedData \<Rightarrow> IoPtr \<Rightarrow> (IoPtr \<Rightarrow> Io) \<times> OverlappedData" where
  "ins st ol iop =
     (let es = search_range ol (st iop);
          st0 = st(iop := (st iop)\<lparr>nOverlapped := 0\<rparr>);
          st1 = ins_loop st0 iop es
      in (st1, ol\<lparr>olSet := set_emplace (ioOffset (st1 iop), iop) (olSet ol),
                  maxSize := (if maxSize ol < ioSize (st1 iop) then ioSize (st1 iop) else maxSize ol)\<rparr>))"

fun del_loop ::
  "(IoPtr \<Rightarrow> Io) \<Rightarrow> IoPtr \<Rightarrow> (int \<times> IoPtr) list \<Rightarrow> IoPtr list \<Rightarrow> (IoPtr \<Rightarrow> Io) \<times> IoPtr list" where
  "del_loop st iop [] q = (st, q)"
| "del_loop st iop (e # es) q =
     (let p = snd e in
      if isOverlapped (st p) (st iop) then
        (let st1 = st(p := (st p)\<lparr>nOverlapped := (nOverlapped (st p) + 2 ^ 32 - 1) mod 2 ^ 32\<rparr>)
         in del_loop st1 iop es (if nOverlapped (st1 p) = 0 then q @ [p] else q))
      else del_loop st iop es q)"

definition del ::
  "(IoPtr \<Rightarrow> Io) \<Rightarrow> OverlappedData \<Rightarrow> IoPtr \<Rightarrow> (IoPtr \<Rightarrow> Io) \<times> OverlappedData \<times> IoPtr list" where
  "del st ol iop =
     (let set1 = remove1 (ioOffset (st iop), iop) (olSet ol);
          ol1 = \<lparr> olSet = set1, maxSize = (if set1 = [] then 0 else maxSize ol) \<rparr>
      in case del_loop st iop (search_range ol1 (st iop)) [] of
           (st1, q) \<Rightarrow> (st1, ol1, q))"


text \<open>The configuration of \<open>WalbLogApplyer\<close>: the two discard options, the physical block
  size of the device (\<open>blockSize_\<close>), the queue size, the size of the device in bytes, the
  physical block size of the wlog header and, for the buffers that a zero-discard allocates,
  the address of the n-th such buffer.\<close>

record config =
  cfg_isDiscard :: bool
  cfg_isZeroDiscard :: bool
  blockSize :: nat
  queueSize :: nat
  deviceSize :: nat
  cfg_pbs :: nat
  zeroAddr :: "nat \<Rightarrow> nat"

text \<open>Modelled from the spec: the asynchronous writes (\<open>cybozu::aio::Aio\<close>, aio_util.hpp
  is not among the sources). \<open>prepareWrite\<close> records a write of \<open>size\<close> bytes at \<open>offset\<close>
  from the buffer and returns a key above 0; the writes prepared are submitted by
  \<open>submit\<close> at the end of the same call of \<open>submitIos\<close>, and \<open>waitFor\<close> returns when the
  write is complete. A write is kept with the pointer of its IO. The bytes at the buffer are
  those of the blocks of the IO, which \<open>canMerge\<close> has found contiguous.\<close>

record aio_write =
  w_io :: IoPtr
  w_offset :: int
  w_size :: nat
  w_data :: "u8 list"

text \<open>The members of \<open>WalbLogApplyer\<close>: the store of the IOs with the next pointer, the
  three queues, the pending blocks, the overlap data, the statistics, the writes prepared,
  the discards issued and the count of the buffers allocated for zero-discards.\<close>

record redo_state =
  ios :: "IoPtr \<Rightarrow> Io"
  nextIo :: nat
  ioQ :: "IoPtr list"
  readyIoQ :: "IoPtr list"
  submitIoQ :: "IoPtr list"
  nPendingBlocks :: nat
  olData :: OverlappedData
  nWritten :: nat
  nOverwritten :: nat
  nClipped :: nat
  nDiscard :: nat
  nPadding :: nat
  aio_writes :: "aio_write list"
  discards :: "(nat \<times> nat) list"
  nAlloc :: nat

definition null_Io :: Io where
  "null_Io = \<lparr> ioOffset = 0, ioSize = 0, aioKey = 0, isSubmitted = False, isCompleted = False,
     isOverwritten = False, blocks = [], nOverlapped = 0, sequenceId = 0 \<rparr>"

definition init_state :: redo_state where
  "init_state = \<lparr> ios = (\<lambda>_. null_Io), nextIo = 0, ioQ = [], readyIoQ = [], submitIoQ = [],
     nPendingBlocks = 0, olData = \<lparr> olSet = [], maxSize = 0 \<rparr>, nWritten = 0,
     nOverwritten = 0, nClipped = 0, nDiscard = 0, nPadding = 0, aio_writes = [],
     discards = [], nAlloc = 0 \<rparr>"

text \<open>\<open>submitIos\<close>: every IO of the submit queue that is not overwritten is prepared as a
  write from its first block and marked submitted. An IO without blocks has no first block:
  the result \<open>None\<close> stands for the undefined behaviour of \<open>front()\<close> on an empty deque.\<close>

fun submitIos_loop :: "IoPtr list \<Rightarrow> redo_state \<Rightarrow> redo_state option" where
  "submitIos_loop [] s = Some s"
| "submitIos_loop (iop # q) s =
     (let s1 = s\<lparr>submitIoQ := q\<rparr>; io = ios s1 iop in
      if isOverwritten io then submitIos_loop q s1
      else if blocks io = [] then None
      else
        submitIos_loop q
          (s1\<lparr>ios := (ios s1)(iop := io\<lparr>aioKey := length (aio_writes s1) + 1, isSubmitted := True\<rparr>),
              aio_writes := aio_writes s1 @
                [\<lparr> w_io = iop, w_offset = ioOffset io, w_size = ioSize io,
                   w_data = take (ioSize io) (concat (map bdata (blocks io))) \<rparr>]\<rparr>))"

definition submitIos :: "redo_state \<Rightarrow> redo_state option" where
  "submitIos s = (if submitIoQ s = [] then Some s else submitIos_loop (submitIoQ s) s)"

text \<open>\<open>scheduleIos\<close>: the ready queue is drained into the submit queue, each IO at the
  lower bound of its offset (the submit queue is sorted by offset, so the binary search finds
  the first IO whose offset is not smaller); overwritten IOs are dropped; a full submit queue
  is submitted at once.\<close>

definition insert_by_offset :: "(IoPtr \<Rightarrow> Io) \<Rightarrow> IoPtr \<Rightarrow> IoPtr list \<Rightarrow> IoPtr list" where
  "insert_by_offset st iop q =
     takeWhile (\<lambda>p. ioOffset (st p) < ioOffset (st iop)) q @ iop #
     dropWhile (\<lambda>p. ioOffset (st p) < ioOffset (st iop)) q"

fun scheduleIos_loop :: "config \<Rightarrow> IoPtr list \<Rightarrow> redo_state \<Rightarrow> redo_state option" where
  "scheduleIos_loop cfg [] s = Some s"
| "scheduleIos_loop cfg (iop # q) s =
     (let s1 = s\<lparr>readyIoQ := q\<rparr> in
      if isOverwritten (ios s1 iop) then scheduleIos_loop cfg q s1
      else
        (let s2 = s1\<lparr>submitIoQ := insert_by_offset (ios s1) iop (submitIoQ s1)\<rparr> in
         if queueSize cfg \<le> length (submitIoQ s2)
         then (case submitIos s2 of None \<Rightarrow> None | Some s3 \<Rightarrow> scheduleIos_loop cfg q s3)
         else scheduleIos_loop cfg q s2))"

definition scheduleIos :: "config \<Rightarrow> redo_state \<Rightarrow> redo_state option" where
  "scheduleIos cfg s = scheduleIos_loop cfg (readyIoQ s) s"

text \<open>\<open>bytesToPb\<close>, on the low 32 bits of the size.\<close>

definition bytesToPb :: "config \<Rightarrow> nat \<Rightarrow> nat" where
  "bytesToPb cfg bytes = capacity_pb (blockSize cfg) ((bytes mod 2 ^ 32) div LOGICAL_BLOCK_SIZE)"

text \<open>\<open>waitForAnIoCompletion\<close>: the oldest IO leaves the IO queue (\<open>None\<close>: the queue is
  empty); if it is neither submitted nor overwritten the ready IOs are scheduled and
  submitted first. A submitted IO is waited for and counted as written, any other as
  overwritten. The IO leaves the overlap data, and the IOs that nothing overlaps any more go
  to the head of the ready queue, unless overwritten.\<close>

definition push_ready :: "IoPtr list \<Rightarrow> redo_state \<Rightarrow> redo_state" where
  "push_ready tmp s =
     fold (\<lambda>p s. if isOverwritten (ios s p) then s else s\<lparr>readyIoQ := p # readyIoQ s\<rparr>) tmp s"

definition complete_io :: "config \<Rightarrow> IoPtr \<Rightarrow> redo_state \<Rightarrow> redo_state" where
  "complete_io cfg iop s1 =
     (let s2 = (if isSubmitted (ios s1 iop)
                then s1\<lparr>ios := (ios s1)(iop := (ios s1 iop)\<lparr>isCompleted := True\<rparr>),
                        nWritten := nWritten s1 + 1\<rparr>
                else s1\<lparr>nOverwritten := nOverwritten s1 + 1\<rparr>);
          s3 = s2\<lparr>nPendingBlocks :=
                 (nPendingBlocks s2 + 2 ^ 64 - bytesToPb cfg (ioSize (ios s2 iop)) mod 2 ^ 64) mod 2 ^ 64\<rparr>
      in case del (ios s3) (olData s3) iop of
           (st, ol, tmp) \<Rightarrow> push_ready tmp (s3\<lparr>ios := st, olData := ol\<rparr>))"

definition waitForAnIoCompletion :: "config \<Rightarrow> redo_state \<Rightarrow> redo_state option" where
  "waitForAnIoCompletion cfg s =
     (case ioQ s of
        [] \<Rightarrow> None
      | iop # q \<Rightarrow>
          (let s0 = s\<lparr>ioQ := q\<rparr> in
           if \<not> isSubmitted (ios s0 iop) \<and> \<not> isOverwritten (ios s0 iop)
           then (case scheduleIos cfg s0 of
                   None \<Rightarrow> None
                 | Some sa \<Rightarrow> (case submitIos sa of
                                 None \<Rightarrow> None
                               | Some s1 \<Rightarrow> Some (complete_io cfg iop s1)))
           else Some (complete_io cfg iop s0)))"


lemma submitIos_loop_ioQ: "submitIos_loop q s = Some s' \<Longrightarrow> ioQ s' = ioQ s"
  by (induction q arbitrary: s) (auto simp: Let_def split: if_splits)

lemma submitIos_ioQ: "submitIos s = Some s' \<Longrightarrow> ioQ s' = ioQ s"
  by (auto simp: submitIos_def submitIos_loop_ioQ split: if_splits)

lemma scheduleIos_loop_ioQ: "scheduleIos_loop cfg q s = Some s' \<Longrightarrow> ioQ s' = ioQ s"
proof (induction q arbitrary: s)
  case Nil then show ?case by simp
next
  case (Cons iop q)
  then show ?case
    by (auto simp: Let_def dest!: submitIos_ioQ split: if_splits option.splits)
qed

lemma push_ready_ioQ: "ioQ (push_ready tmp s) = ioQ s"
  unfolding push_ready_def by (induction tmp arbitrary: s) auto

lemma complete_io_ioQ: "ioQ (complete_io cfg iop s) = ioQ s"
  by (simp add: complete_io_def Let_def push_ready_ioQ split: prod.splits)

lemma waitForAnIoCompletion_ioQ:
  "waitForAnIoCompletion cfg s = Some s' \<Longrightarrow> ioQ s' = tl (ioQ s)"
  by (auto simp: waitForAnIoCompletion_def Let_def scheduleIos_def complete_io_ioQ
      dest!: scheduleIos_loop_ioQ submitIos_ioQ split: list.splits if_splits option.splits)

lemma waitForAnIoCompletion_nonempty:
  "waitForAnIoCompletion cfg s = Some s' \<Longrightarrow> ioQ s \<noteq> []"
  by (cases "ioQ s") (simp_all add: waitForAnIoCompletion_def)

lemma waitForAnIoCompletion_decreases:
  assumes "waitForAnIoCompletion cfg s = Some s'"
  shows "length (ioQ s') < length (ioQ s)"
  using waitForAnIoCompletion_ioQ [OF assms] waitForAnIoCompletion_nonempty [OF assms]
  by (cases "ioQ s") simp_all

text \<open>\<open>waitForAllPendingIos\<close>: completions are waited for while the IO queue or the ready
  queue is not empty.\<close>

function waitForAllPendingIos :: "config \<Rightarrow> redo_state \<Rightarrow> redo_state option" where
  "waitForAllPendingIos cfg s =
     (if ioQ s \<noteq> [] \<or> readyIoQ s \<noteq> [] then
        (case waitForAnIoCompletion cfg s of
           None \<Rightarrow> None
         | Some s1 \<Rightarrow> waitForAllPendingIos cfg s1)
      else Some s)"
  by pat_completeness auto
termination
proof (relation "measure (\<lambda>(cfg, s). length (ioQ s))")
  show "wf (measure (\<lambda>(cfg, s). length (ioQ s)))" by simp
next
  fix cfg :: config and s s1 :: redo_state
  assume "waitForAnIoCompletion cfg s = Some s1"
  then show "((cfg, s1), (cfg, s)) \<in> measure (\<lambda>(cfg, s). length (ioQ s))"
    by (simp add: waitForAnIoCompletion_decreases)
qed

declare waitForAllPendingIos.simps [simp del]

text \<open>\<open>prepareIos\<close>: completions are waited for while the IO queue is not empty and the
  pending blocks with the new ones exceed the queue size; then every IO of the local queue
  is inserted into the overlap data, goes to the ready queue if nothing overlaps it, and to
  the IO queue.\<close>

function prepareIos_wait :: "config \<Rightarrow> nat \<Rightarrow> redo_state \<Rightarrow> redo_state option" where
  "prepareIos_wait cfg nBlk s =
     (if ioQ s \<noteq> [] \<and> queueSize cfg < nPendingBlocks s + nBlk then
        (case waitForAnIoCompletion cfg s of
           None \<Rightarrow> None
         | Some s1 \<Rightarrow> prepareIos_wait cfg nBlk s1)
      else Some s)"
  by pat_completeness auto
termination
proof (relation "measure (\<lambda>(cfg, nBlk, s). length (ioQ s))")
  show "wf (measure (\<lambda>(cfg, nBlk, s). length (ioQ s)))" by simp
next
  fix cfg :: config and nBlk :: nat and s s1 :: redo_state
  assume "waitForAnIoCompletion cfg s = Some s1"
  then show "((cfg, nBlk, s1), (cfg, nBlk, s)) \<in> measure (\<lambda>(cfg, nBlk, s). length (ioQ s))"
    by (simp add: waitForAnIoCompletion_decreases)
qed

declare prepareIos_wait.simps [simp del]

definition enqueue_io :: "IoPtr \<Rightarrow> redo_state \<Rightarrow> redo_state" where
  "enqueue_io iop s =
     (case ins (ios s) (olData s) iop of
        (st, ol) \<Rightarrow>
          (let s1 = s\<lparr>ios := st, olData := ol\<rparr>;
               s2 = (if nOverlapped (ios s1 iop) = 0 then s1\<lparr>readyIoQ := readyIoQ s1 @ [iop]\<rparr>
                     else s1)
           in s2\<lparr>ioQ := ioQ s2 @ [iop]\<rparr>))"

definition prepareIos :: "config \<Rightarrow> IoPtr list \<Rightarrow> nat \<Rightarrow> redo_state \<Rightarrow> redo_state option" where
  "prepareIos cfg tmpIoQ nBlk s =
     (case prepareIos_wait cfg nBlk s of
        None \<Rightarrow> None
      | Some s1 \<Rightarrow>
          Some (fold enqueue_io tmpIoQ
                  (s1\<lparr>nPendingBlocks := (nPendingBlocks s1 + nBlk) mod 2 ^ 64\<rparr>)))"

text \<open>\<open>redoNormalIo\<close>: the record is cut into IOs of the block size of the device, one for
  each physical block of the record; an IO that ends beyond the device is clipped, any other
  is added to the local queue; when half the queue size is reached, and at the end, the IOs
  are prepared and scheduled. The byte offset is the 64-bit product of the record's offset
  and 512; the offset of the IO is this value as an \<open>off_t\<close>, and the clip test adds the size
  to it as an unsigned 64-bit value. The block of a discard is a new buffer of zeros; the block
  of a write is block \<open>i\<close> of the record (\<open>None\<close>: the container has no such block, and
  \<open>getBlock\<close> does not check).\<close>

record redo_locals =
  l_tmpIoQ :: "IoPtr list"
  l_remaining :: nat
  l_off :: u64
  l_nBlocks :: nat

definition make_io ::
  "config \<Rightarrow> walb_log_record \<Rightarrow> LogBlockShared \<Rightarrow> nat \<Rightarrow> redo_locals \<Rightarrow> redo_state
    \<Rightarrow> redo_locals \<times> redo_state" where
  "make_io cfg r blockS i l s =
     (let blk = (if isDiscardLog r
                 then \<lparr> baddr = zeroAddr cfg (nAlloc s), bdata = replicate (blockSize cfg) 0 \<rparr>
                 else bs_data blockS ! i);
          s0 = (if isDiscardLog r then s\<lparr>nAlloc := nAlloc s + 1\<rparr> else s);
          sz = min (blockSize cfg) (l_remaining l);
          iop = nextIo s0;
          io = new_Io (sint (l_off l)) sz blk (nextIo s0);
          s1 = s0\<lparr>nextIo := nextIo s0 + 1\<rparr>;
          l1 = l\<lparr>l_off := l_off l + of_nat sz, l_remaining := l_remaining l - sz\<rparr>
      in
        if unat (l_off l + of_nat sz) \<le> deviceSize cfg
        then (case IoQueue_add ((ios s1)(iop := io)) (l_tmpIoQ l1) iop of
                (st, q) \<Rightarrow>
                  (l1\<lparr>l_tmpIoQ := q, l_nBlocks := l_nBlocks l1 + 1\<rparr>,
                   s1\<lparr>ios := st,
                       nDiscard := (if isDiscardLog r then nDiscard s1 + 1 else nDiscard s1)\<rparr>))
        else (l1, s1\<lparr>nClipped := nClipped s1 + 1\<rparr>))"

function redoNormalIo_loop ::
  "config \<Rightarrow> walb_log_record \<Rightarrow> LogBlockShared \<Rightarrow> nat \<Rightarrow> nat \<Rightarrow> redo_locals \<Rightarrow> redo_state
    \<Rightarrow> (redo_locals \<times> redo_state) option" where
  "redoNormalIo_loop cfg r blockS n i l s =
     (if i < n then
        (if \<not> isDiscardLog r \<and> nBlocks blockS \<le> i then None
         else
           (case make_io cfg r blockS i l s of
              (l2, s2) \<Rightarrow>
                if queueSize cfg div 2 \<le> l_nBlocks l2 then
                  (case prepareIos cfg (l_tmpIoQ l2) (l_nBlocks l2) s2 of
                     None \<Rightarrow> None
                   | Some s3 \<Rightarrow>
                       (case scheduleIos cfg s3 of
                          None \<Rightarrow> None
                        | Some s4 \<Rightarrow>
                            redoNormalIo_loop cfg r blockS n (i + 1)
                              (l2\<lparr>l_tmpIoQ := [], l_nBlocks := 0\<rparr>) s4))
                else redoNormalIo_loop cfg r blockS n (i + 1) l2 s2))
      else Some (l, s))"
  by pat_completeness auto
termination
  by (relation "measure (\<lambda>(cfg, r, blockS, n, i, l, s). n - i)") auto

declare redoNormalIo_loop.simps [simp del]

definition redoNormalIo :: "config \<Rightarrow> walb_log_record \<Rightarrow> LogBlockShared \<Rightarrow> redo_state \<Rightarrow> redo_state option" where
  "redoNormalIo cfg r blockS s =
     (case redoNormalIo_loop cfg r blockS (ioSizePb r (cfg_pbs cfg)) 0
             \<lparr> l_tmpIoQ = [], l_remaining = ioSizeLb r * LOGICAL_BLOCK_SIZE,
               l_off = offset r * 512, l_nBlocks = 0 \<rparr> s of
        None \<Rightarrow> None
      | Some (l, s1) \<Rightarrow>
          (case prepareIos cfg (l_tmpIoQ l) (l_nBlocks l) s1 of
             None \<Rightarrow> None
           | Some s2 \<Rightarrow> scheduleIos cfg s2))"

text \<open>\<open>redoDiscard\<close> and \<open>redoPack\<close>. The discard \<open>ioctl\<close> is kept as the pair of byte
  offset and byte size (both 64-bit) in the list of the discards issued.\<close>

definition redoDiscard :: "config \<Rightarrow> walb_log_record \<Rightarrow> redo_state \<Rightarrow> redo_state option" where
  "redoDiscard cfg r s =
     (case waitForAllPendingIos cfg s of
        None \<Rightarrow> None
      | Some s1 \<Rightarrow>
          Some (s1\<lparr>discards := discards s1 @
                     [(unat (offset r * 512), ioSizeLb r * LOGICAL_BLOCK_SIZE)],
                   nDiscard := nDiscard s1 + ioSizePb r (cfg_pbs cfg)\<rparr>))"

definition redoPack :: "config \<Rightarrow> walb_log_record \<Rightarrow> LogBlockShared \<Rightarrow> redo_state \<Rightarrow> redo_state option" where
  "redoPack cfg r blockS s =
     (if isPadding r then Some (s\<lparr>nPadding := nPadding s + ioSizePb r (cfg_pbs cfg)\<rparr>)
      else if isDiscardLog r \<and> cfg_isDiscard cfg then redoDiscard cfg r s
      else if isDiscardLog r \<and> \<not> cfg_isZeroDiscard cfg
      then Some (s\<lparr>nDiscard := nDiscard s + ioSizePb r (cfg_pbs cfg)\<rparr>)
      else redoNormalIo cfg r blockS s)"

text \<open>The loop of \<open>readAndApply\<close> over the records read, each with its blocks, and its end:
  the submit queue is submitted and all pending IOs are waited for.\<close>

fun redoPacks ::
  "config \<Rightarrow> (walb_log_record \<times> LogBlockShared) list \<Rightarrow> redo_state \<Rightarrow> redo_state option" where
  "redoPacks cfg [] s = Some s"
| "redoPacks cfg ((r, blockS) # rs) s =
     (case redoPack cfg r blockS s of None \<Rightarrow> None | Some s1 \<Rightarrow> redoPacks cfg rs s1)"

definition finishApply :: "config \<Rightarrow> redo_state \<Rightarrow> redo_state option" where
  "finishApply cfg s =
     (case submitIos s of None \<Rightarrow> None | Some s1 \<Rightarrow> waitForAllPendingIos cfg s1)"

definition applyFrom ::
  "config \<Rightarrow> (walb_log_record \<times> LogBlockShared) list \<Rightarrow> redo_state \<Rightarrow> redo_state option" where
  "applyFrom cfg rs s =
     (case redoPacks cfg rs s of None \<Rightarrow> None | Some s1 \<Rightarrow> finishApply cfg s1)"

definition readAndApply ::
  "config \<Rightarrow> (walb_log_record \<times> LogBlockShared) list \<Rightarrow> redo_state option" where
  "readAndApply cfg rs = applyFrom cfg rs init_state"

text \<open>An IO of 512 bytes at an offset, with one block of 512 equal bytes at a buffer address.\<close>

definition ex_io :: "int \<Rightarrow> nat \<Rightarrow> nat \<Rightarrow> Io" where
  "ex_io ofs a sid = new_Io ofs 512 \<lparr> baddr = a, bdata = replicate 512 1 \<rparr> sid"

text \<open>Two stores have the same geometry when every IO has in both the same offset and the
  same size. The overlap data are well formed for a store when the set is sorted by offset,
  every element carries the offset of its IO, which is not negative, no IO is larger than
  \<open>maxSize_\<close>, and an IO that is overwritten and not submitted has no blocks.\<close>

definition same_geometry :: "(IoPtr \<Rightarrow> Io) \<Rightarrow> (IoPtr \<Rightarrow> Io) \<Rightarrow> bool" where
  "same_geometry st st' \<longleftrightarrow>
     (\<forall>p. ioOffset (st' p) = ioOffset (st p) \<and> ioSize (st' p) = ioSize (st p))"




text \<open>One pass of the loop of \<open>ins\<close>, as a function of the store.\<close>

definition ins_step :: "IoPtr \<Rightarrow> int \<times> IoPtr \<Rightarrow> (IoPtr \<Rightarrow> Io) \<Rightarrow> (IoPtr \<Rightarrow> Io)" where
  "ins_step iop e st =
     (if isOverlapped (st (snd e)) (st iop) then
        (let st1 = st(iop := (st iop)\<lparr>nOverlapped := (nOverlapped (st iop) + 1) mod 2 ^ 32\<rparr>)
         in if isOverwrittenBy (st1 (snd e)) (st1 iop) then st1(snd e := overwritten (st1 (snd e))) else st1)
      else st)"

text \<open>How the engine changes an IO once it is created: the target range stays, the flags
  overwritten and submitted are never reset, and an IO is submitted only while it is not
  overwritten. A state evolves into another when every IO of the store does so, no IO is
  created or clipped, and each new write is the range of an IO that was not overwritten.\<close>

definition io_evolves :: "Io \<Rightarrow> Io \<Rightarrow> bool" where
  "io_evolves a b \<longleftrightarrow>
     ioOffset b = ioOffset a \<and> ioSize b = ioSize a \<and>
     (isOverwritten a \<longrightarrow> isOverwritten b) \<and>
     (isSubmitted a \<longrightarrow> isSubmitted b) \<and>
     (isSubmitted b \<and> \<not> isSubmitted a \<longrightarrow> \<not> isOverwritten a)"

definition write_of :: "(IoPtr \<Rightarrow> Io) \<Rightarrow> aio_write \<Rightarrow> bool" where
  "write_of st w \<longleftrightarrow>
     w_offset w = ioOffset (st (w_io w)) \<and> w_size w = ioSize (st (w_io w)) \<and>
     \<not> isOverwritten (st (w_io w))"

definition evolves :: "redo_state \<Rightarrow> redo_state \<Rightarrow> bool" where
  "evolves s s' \<longleftrightarrow>
     nextIo s' = nextIo s \<and> nClipped s' = nClipped s \<and>
     (\<forall>p. io_evolves (ios s p) (ios s' p)) \<and>
     (\<exists>ws. aio_writes s' = aio_writes s @ ws \<and> list_all (write_of (ios s)) ws)"

text \<open>An IO is in range when it lies within the device; the store and the writes are in
  range when every IO and every write prepared does. An IO is elided when it is marked
  overwritten, is not submitted and has no write.\<close>

definition in_range :: "config \<Rightarrow> Io \<Rightarrow> bool" where
  "in_range cfg io \<longleftrightarrow> 0 \<le> ioOffset io \<and> ioOffset io + int (ioSize io) \<le> int (deviceSize cfg)"

definition write_in_range :: "config \<Rightarrow> aio_write \<Rightarrow> bool" where
  "write_in_range cfg w \<longleftrightarrow> 0 \<le> w_offset w \<and> w_offset w + int (w_size w) \<le> int (deviceSize cfg)"

definition range_inv :: "config \<Rightarrow> redo_state \<Rightarrow> bool" where
  "range_inv cfg s \<longleftrightarrow> (\<forall>p. in_range cfg (ios s p)) \<and> list_all (write_in_range cfg) (aio_writes s)"


text \<open>The number of the IOs of a record that end beyond the device: \<open>k\<close> IOs of the block
  size, the last ones shorter, from the byte offset \<open>off\<close> on.\<close>

fun clip_count :: "nat \<Rightarrow> nat \<Rightarrow> nat \<Rightarrow> nat \<Rightarrow> nat \<Rightarrow> nat" where
  "clip_count bs dev 0 ofs rem = 0"
| "clip_count bs dev (Suc k) ofs rem =
     (if dev < ofs + min bs rem then 1 else 0) + clip_count bs dev k (ofs + min bs rem) (rem - min bs rem)"

definition normal_path :: "config \<Rightarrow> walb_log_record \<Rightarrow> bool" where
  "normal_path cfg r \<longleftrightarrow>
     \<not> isPadding r \<and> \<not> (isDiscardLog r \<and> (cfg_isDiscard cfg \<or> \<not> cfg_isZeroDiscard cfg))"

definition clipped_of :: "config \<Rightarrow> walb_log_record \<Rightarrow> nat" where
  "clipped_of cfg r =
     (if normal_path cfg r
      then clip_count (blockSize cfg) (deviceSize cfg) (ioSizePb r (cfg_pbs cfg))
             (unat (offset r) * 512) (ioSizeLb r * LOGICAL_BLOCK_SIZE)
      else 0)"

definition no_wrap :: "walb_log_record \<Rightarrow> bool" where
  "no_wrap r \<longleftrightarrow> unat (offset r) * 512 + unat (io_size r) * 512 < 2 ^ 63"

text \<open>The locals of \<open>redoNormalIo\<close> do not wrap when the byte offset with the remaining bytes
  stays under \<open>2 ^ 63\<close>.\<close>

definition wrap_ok :: "redo_locals \<Rightarrow> bool" where
  "wrap_ok l \<longleftrightarrow> unat (l_off l) + l_remaining l < 2 ^ 63"

text \<open>Examples of replays. The queue size is that of \<open>getQueueSizeStatic\<close> for the buffer of
  4 MiB of \<open>main\<close>; the block size of the device is the physical block size of the log; a
  write record of \<open>n\<close> logical blocks at the offset \<open>a\<close>; a block of equal bytes at a buffer
  address.\<close>

definition BUFFER_SIZE :: nat where
  "BUFFER_SIZE = 4 * 1024 * 1024"

definition ex_config :: "nat \<Rightarrow> nat \<Rightarrow> config" where
  "ex_config bs dev = \<lparr> cfg_isDiscard = False, cfg_isZeroDiscard = False, blockSize = bs,
     queueSize = BUFFER_SIZE div bs, deviceSize = dev, cfg_pbs = bs, zeroAddr = (\<lambda>n. 0) \<rparr>"

definition ex_write :: "u64 \<Rightarrow> u32 \<Rightarrow> walb_log_record" where
  "ex_write a n = \<lparr> checksum = 0, lsid = 0, lsid_local = 0, flags = 1, offset = a, io_size = n \<rparr>"

definition ex_block :: "nat \<Rightarrow> nat \<Rightarrow> u8 \<Rightarrow> LogBlock" where
  "ex_block a bs x = \<lparr> baddr = a, bdata = replicate bs x \<rparr>"

definition ex_data :: "nat \<Rightarrow> LogBlock list \<Rightarrow> LogBlockShared" where
  "ex_data bs blks = \<lparr> bs_pbs = bs, bs_data = blks \<rparr>"

text \<open>The statistics and the writes of a replay.\<close>

definition outcome :: "redo_state \<Rightarrow> nat \<times> nat \<times> nat \<times> aio_write list" where
  "outcome s = (nWritten s, nOverwritten s, nClipped s, aio_writes s)"


section \<open>Validity of diff records\<close>

lemma isValid_not_both:
  "isValid c r \<Longrightarrow> \<not> (isAllZero r \<and> isDiscard r)"
  by (auto simp: isValid_def isNormal_def split: if_splits)

text \<open>C6: a record accepted by the validity check should have data size 0 when it is all-zero
  or discard. The check accepts an all-zero record of data size 512: the test of the data size
  logs and returns nothing.\<close>

theorem isValid_accepts_nonzero_data_size:
  "isValid c \<lparr> io_address = 0, io_blocks = 1, dflags = 3, compression_type = 0,
       data_offset = 0, data_size = 512, dchecksum = 0 \<rparr>
   \<and> isAllZero \<lparr> io_address = 0, io_blocks = 1, dflags = 3, compression_type = 0,
       data_offset = 0, data_size = 512, dchecksum = 0 \<rparr>
   \<and> data_size \<lparr> io_address = 0, io_blocks = 1, dflags = 3, compression_type = 0,
       data_offset = 0, data_size = 512, dchecksum = 0 \<rparr> \<noteq> 0"
  by (simp add: isValid_def isNormal_def isAllZero_def isDiscard_def exists_diff_def
      WALB_DIFF_FLAG_EXIST_def WALB_DIFF_FLAG_ALLZERO_def WALB_DIFF_FLAG_DISCARD_def)

section \<open>The record add policy of the log-pack header\<close>

lemma capacity_pb_0: "capacity_pb p 0 = 0"
  by (cases "p = 0") (simp_all add: capacity_pb_def)

lemma example_header_simps:
  "nRecords example_header = 0" "totalIoSize example_header = 0" "header_nPadding example_header = 0"
  "header_pbs example_header = 4096" "capacity_pb 4096 8 = 1" "n_lb_in_pb 4096 = 8"
  by (simp_all add: example_header_def nRecords_def totalIoSize_def header_nPadding_def header_pbs_def
      capacity_pb_def n_lb_in_pb_def LOGICAL_BLOCK_SIZE_def)

text \<open>C8: after a successful add of a normal, padding or discard record, the new record (at
  the index that was \<open>n_records\<close> before) has \<open>lsid_local = total_io_size + 1\<close>, for the
  \<open>total_io_size\<close> before the add, and \<open>lsid = logpack_lsid + lsid_local\<close>; a normal or
  padding record adds \<open>capacity_pb(pbs, size)\<close> to \<open>total_io_size\<close>, a discard record leaves
  it as it was. The equations are those of the fields' unsigned arithmetic.\<close>

theorem add_record_lsid_policy:
  "(addNormalIo mr mt h off sz = Inr (True, h1) \<longrightarrow>
      lsid_local (records (lp_header h1) (nRecords h)) = total_io_size (lp_header h) + 1 \<and>
      lsid (records (lp_header h1) (nRecords h)) =
        logpack_lsid (lp_header h) + ucast (lsid_local (records (lp_header h1) (nRecords h))) \<and>
      total_io_size (lp_header h1) =
        total_io_size (lp_header h) + of_nat (capacity_pb (header_pbs h) (unat sz))) \<and>
   (addPadding mr mt h sz = Inr (True, h2) \<longrightarrow>
      lsid_local (records (lp_header h2) (nRecords h)) = total_io_size (lp_header h) + 1 \<and>
      lsid (records (lp_header h2) (nRecords h)) =
        logpack_lsid (lp_header h) + ucast (lsid_local (records (lp_header h2) (nRecords h))) \<and>
      total_io_size (lp_header h2) =
        total_io_size (lp_header h) + of_nat (capacity_pb (header_pbs h) (unat sz))) \<and>
   (addDiscardIo mr h off sz = Inr (True, h3) \<longrightarrow>
      lsid_local (records (lp_header h3) (nRecords h)) = total_io_size (lp_header h) + 1 \<and>
      lsid (records (lp_header h3) (nRecords h)) =
        logpack_lsid (lp_header h) + ucast (lsid_local (records (lp_header h3) (nRecords h))) \<and>
      total_io_size (lp_header h3) = total_io_size (lp_header h))"
  by (auto simp: addNormalIo_def addPadding_def addDiscardIo_def Let_def split: if_splits)

theorem add_record_lsid_policy_witness:
  "\<exists>h1 h2 h3.
     addNormalIo 127 65535 example_header 0 8 = Inr (True, h1) \<and>
     lsid_local (records (lp_header h1) 0) = 1 \<and>
     lsid (records (lp_header h1) 0) = 101 \<and>
     total_io_size (lp_header h1) = 1 \<and>
     addPadding 127 65535 example_header 8 = Inr (True, h2) \<and>
     lsid_local (records (lp_header h2) 0) = 1 \<and>
     lsid (records (lp_header h2) 0) = 101 \<and>
     total_io_size (lp_header h2) = 1 \<and>
     addDiscardIo 127 example_header 0 8 = Inr (True, h3) \<and>
     lsid_local (records (lp_header h3) 0) = 1 \<and>
     lsid (records (lp_header h3) 0) = 101 \<and>
     total_io_size (lp_header h3) = 0"
proof -
  obtain h1 where h1: "addNormalIo 127 65535 example_header 0 8 = Inr (True, h1)"
    by (simp add: addNormalIo_def example_header_simps Let_def)
  obtain h2 where h2: "addPadding 127 65535 example_header 8 = Inr (True, h2)"
    by (simp add: addPadding_def example_header_simps Let_def)
  obtain h3 where h3: "addDiscardIo 127 example_header 0 8 = Inr (True, h3)"
    by (simp add: addDiscardIo_def example_header_simps Let_def)
  have "total_io_size (lp_header example_header) = 0" "logpack_lsid (lp_header example_header) = 100"
    by (simp_all add: example_header_def)
  with add_record_lsid_policy [of 127 65535 example_header 0 8 h1 h2 h3] h1 h2 h3
  show ?thesis
    by (simp add: example_header_simps)
qed

text \<open>C10: a normal or discard IO of size 0 is never accepted: the call returns false when
  the pack is full and throws otherwise. False is returned exactly when the pack is full (in
  records or in total IO size) or, for a padding, when the pack has a padding already; the
  header is then left as it was. A padding of size 0 is accepted when the pack is not full and
  has no padding.\<close>

theorem zero_sized_add:
  "addNormalIo mr mt h off 0 =
     (if mr \<le> nRecords h \<or> mt < totalIoSize h then Inr (False, h) else Inl NormalIoZeroSized) \<and>
   addDiscardIo mr h off 0 =
     (if mr \<le> nRecords h then Inr (False, h) else Inl DiscardIoZeroSized) \<and>
   (addNormalIo mr mt h off sz = Inr (False, h') \<longleftrightarrow>
      h' = h \<and> (mr \<le> nRecords h \<or> mt < totalIoSize h + capacity_pb (header_pbs h) (unat sz))) \<and>
   (addDiscardIo mr h off sz = Inr (False, h') \<longleftrightarrow> h' = h \<and> mr \<le> nRecords h) \<and>
   (addPadding mr mt h sz = Inr (False, h') \<longleftrightarrow>
      h' = h \<and> (mr \<le> nRecords h \<or> mt < totalIoSize h + capacity_pb (header_pbs h) (unat sz)
         \<or> 0 < header_nPadding h)) \<and>
   (nRecords h < mr \<and> totalIoSize h \<le> mt \<and> header_nPadding h = 0 \<and> n_lb_in_pb (header_pbs h) \<noteq> 0 \<longrightarrow>
      (\<exists>h2. addPadding mr mt h 0 = Inr (True, h2)))"
  by (auto simp: addNormalIo_def addPadding_def addDiscardIo_def Let_def capacity_pb_0
      split: if_splits)

theorem zero_sized_add_witness:
  "nRecords example_header < 127 \<and> totalIoSize example_header \<le> 65535 \<and>
   header_nPadding example_header = 0 \<and> n_lb_in_pb (header_pbs example_header) \<noteq> 0 \<and>
   (\<exists>h2. addPadding 127 65535 example_header 0 = Inr (True, h2)) \<and>
   addNormalIo 127 65535 example_header 0 0 = Inl NormalIoZeroSized \<and>
   addDiscardIo 127 example_header 0 0 = Inl DiscardIoZeroSized"
  using zero_sized_add [of 127 65535 example_header 0 0 example_header]
  by (simp add: example_header_simps)

section \<open>The pass of the diff merger in the spec's description\<close>

text \<open>The source declares \<open>tryMoveToDiffMemory\<close> and \<open>getMinimumAddr\<close> without their
  bodies, so the lemmas of this section are about the pass as the spec describes it, with
  the \<open>shouldMerge\<close> of the source: each stream loses its longest prefix of records that
  satisfy \<open>shouldMerge\<close> for the minimum front address.\<close>

lemma moveWhile_eq:
  "moveWhile add P w M =
     (dropWhile (\<lambda>x. P (fst x)) w, fold (\<lambda>x. add (fst x) (snd x)) (takeWhile (\<lambda>x. P (fst x)) w) M)"
  by (induction w arbitrary: M) auto

lemma moveStreams_eq:
  "moveStreams add P ws M =
     (map (dropWhile (\<lambda>x. P (fst x))) ws,
      fold (\<lambda>x. add (fst x) (snd x)) (concat (map (takeWhile (\<lambda>x. P (fst x))) ws)) M)"
  by (induction ws arbitrary: M) (auto simp: moveWhile_eq)

lemma fold_min_le_init: "fold (\<lambda>w m. min (f w) m) ws (a::u64) \<le> a"
proof (induction ws arbitrary: a)
  case Nil then show ?case by simp
next
  case (Cons x xs)
  have "fold (\<lambda>w m. min (f w) m) xs (min (f x) a) \<le> min (f x) a" by (rule Cons.IH)
  also have "\<dots> \<le> a" by simp
  finally show ?case by simp
qed

lemma fold_min_mono: "a \<le> b \<Longrightarrow> fold (\<lambda>w m. min (f w) m) ws (a::u64) \<le> fold (\<lambda>w m. min (f w) m) ws b"
  by (induction ws arbitrary: a b) (auto simp: min_le_iff_disj)

lemma fold_min_le_elem: "w \<in> set ws \<Longrightarrow> fold (\<lambda>w m. min (f w) m) ws (a::u64) \<le> f w"
proof (induction ws arbitrary: a)
  case Nil then show ?case by simp
next
  case (Cons x xs)
  show ?case
  proof (cases "w = x")
    case True
    have "fold (\<lambda>w m. min (f w) m) xs (min (f x) a) \<le> min (f x) a" by (rule fold_min_le_init)
    then show ?thesis using True by simp
  next
    case False
    then show ?thesis using Cons by simp
  qed
qed

lemma getMinimumAddr_le: "w \<in> set ws \<Longrightarrow> getMinimumAddr ws \<le> currentAddress w"
  unfolding getMinimumAddr_def by (rule fold_min_le_elem)

lemma front_not_mergeable:
  assumes "w \<in> set ws" "w = (r, io) # w'" "io_blocks r \<noteq> 0"
    "unat (io_address r) + unat (io_blocks r) < 2 ^ 64"
  shows "\<not> shouldMerge d L r (getMinimumAddr ws)"
proof -
  have "getMinimumAddr ws \<le> io_address r"
    using getMinimumAddr_le [OF assms(1)] assms(2) by (simp add: currentAddress_def)
  moreover have "io_address r < endIoAddress r"
  proof -
    have "unat (io_blocks r) < 2 ^ 16" using unsigned_less [of "io_blocks r"] by simp
    then have "unat (ucast (io_blocks r) :: u64) = unat (io_blocks r)"
      by (simp add: unsigned_ucast_eq take_bit_nat_eq_self)
    moreover have "unat (io_blocks r) \<noteq> 0" using assms(3) by (simp add: unat_eq_0)
    ultimately show ?thesis
      using assms(4) unfolding endIoAddress_def
      by (simp add: word_less_nat_alt unat_word_ariths)
  qed
  ultimately show ?thesis by (auto simp: shouldMerge_def)
qed

text \<open>A consequence of computing \<open>minAddr\<close> before the pass, as the minimum of the front
  addresses of all open streams: a front record with blocks, whose end address does not wrap,
  never satisfies the second condition, and the pass then pops nothing.\<close>

lemma tryMoveToDiffMemory_pops_nothing:
  assumes "\<forall>w\<in>set ws. \<forall>r io w'. w = (r, io) # w' \<longrightarrow>
     io_blocks r \<noteq> 0 \<and> unat (io_address r) + unat (io_blocks r) < 2 ^ 64"
  shows "tryMoveToDiffMemory add d L ws M = (ws, M, getMinimumAddr ws)"
proof -
  let ?P = "\<lambda>x. shouldMerge d L (fst x) (getMinimumAddr ws)"
  have tw: "takeWhile ?P w = []" if "w \<in> set ws" for w
  proof (cases w)
    case Nil then show ?thesis by simp
  next
    case (Cons x w')
    obtain r io where x: "x = (r, io)" by (cases x)
    from assms that Cons x have "io_blocks r \<noteq> 0 \<and> unat (io_address r) + unat (io_blocks r) < 2 ^ 64"
      by blast
    with front_not_mergeable [OF that, of r io w' d L] Cons x show ?thesis by simp
  qed
  have dw: "dropWhile ?P w = w" if "w \<in> set ws" for w
    using takeWhile_dropWhile_id [of ?P w] tw [OF that] by simp
  have "map (dropWhile ?P) ws = ws" using dw by (simp add: map_idI)
  moreover have "map (takeWhile ?P) ws = map (\<lambda>_. []) ws" using tw by simp
  then have "concat (map (takeWhile ?P) ws) = []" by simp
  ultimately show ?thesis
    by (simp only: tryMoveToDiffMemory_def moveStreams_eq Let_def fold.simps id_apply prod.case)
qed

section \<open>The conversion of a log record to a diff record\<close>

lemma drop_concat_step:
  assumes "i < length xs"
  shows "concat (map f (drop i xs)) = f (xs ! i) @ concat (map f (drop (Suc i) xs))"
  using assms by (simp add: Cons_nth_drop_Suc [symmetric])

lemma calcIsAllZero_loop_eq:
  assumes "wf_blocks b" "remaining \<le> (nBlocks b - i) * bs_pbs b"
  shows "calcIsAllZero_loop b remaining i =
     Inr (calcIsAllZero_bytes (take remaining (concat (map bdata (drop i (bs_data b))))))"
  using assms
proof (induction b remaining i rule: calcIsAllZero_loop.induct)
  case (1 b remaining i)
  show ?case
  proof (cases "0 < remaining")
    case False
    then show ?thesis by (subst calcIsAllZero_loop.simps) (simp add: calcIsAllZero_bytes_def)
  next
    case True
    with "1.prems" have i: "i < nBlocks b" by (cases "i < nBlocks b") auto
    from "1.prems" have p: "0 < bs_pbs b" by (simp add: wf_blocks_def)
    let ?blk = "bs_data b ! i"
    let ?s = "min (bs_pbs b) remaining"
    have gb: "get_block b i = Inr ?blk" using i p by (simp add: get_block_def)
    have len: "length (bdata ?blk) = bs_pbs b"
      using "1.prems"(1) i by (simp add: wf_blocks_def list_all_length nBlocks_def)
    have split: "take remaining (concat (map bdata (drop i (bs_data b)))) =
        take ?s (bdata ?blk) @ take (remaining - ?s) (concat (map bdata (drop (Suc i) (bs_data b))))"
      using i len by (auto simp: drop_concat_step nBlocks_def min_def)
    show ?thesis
    proof (cases "calcIsAllZero_bytes (take ?s (bdata ?blk))")
      case False
      then show ?thesis
        using True gb split
        by (subst calcIsAllZero_loop.simps) (simp add: calcIsAllZero_bytes_def Let_def)
    next
      case z: True
      have rem: "remaining - ?s \<le> (nBlocks b - (i + 1)) * bs_pbs b"
      proof -
        have "(nBlocks b - i) * bs_pbs b = (nBlocks b - (i + 1)) * bs_pbs b + bs_pbs b"
          using i by (simp add: algebra_simps Suc_diff_Suc [symmetric] del: Suc_diff_Suc)
        then show ?thesis using "1.prems"(2) by (auto simp: min_def)
      qed
      have "calcIsAllZero_loop b (remaining - ?s) (i + 1) =
          Inr (calcIsAllZero_bytes (take (remaining - ?s) (concat (map bdata (drop (i + 1) (bs_data b))))))"
        using "1.IH" [OF True gb refl _ "1.prems"(1) rem] z by simp
      then show ?thesis
        using True gb split z
        by (subst calcIsAllZero_loop.simps) (simp add: calcIsAllZero_bytes_def Let_def)
    qed
  qed
qed

lemma copy_loop_eq:
  assumes "wf_blocks b" "bs_pbs b = p" "nPb \<le> nBlocks b" "remaining \<le> (nPb - i) * p"
    "length buf = off + remaining"
  shows "copy_loop p b nPb i off remaining buf =
     Inr (take off buf @ take remaining (concat (map bdata (drop i (bs_data b)))))"
  using assms
proof (induction p b nPb i off remaining buf rule: copy_loop.induct)
  case (1 p b nPb i off remaining buf)
  show ?case
  proof (cases "i < nPb")
    case False
    with "1.prems" have "remaining = 0" by simp
    with False "1.prems" show ?thesis by (subst copy_loop.simps) simp
  next
    case True
    with "1.prems" have i: "i < nBlocks b" by simp
    from "1.prems" have p: "0 < bs_pbs b" by (simp add: wf_blocks_def)
    let ?blk = "bs_data b ! i"
    let ?s = "min p remaining"
    let ?src = "take ?s (bdata ?blk)"
    have gb: "get_block b i = Inr ?blk" using i p by (simp add: get_block_def)
    have len: "length (bdata ?blk) = p"
      using "1.prems"(1,2) i by (simp add: wf_blocks_def list_all_length nBlocks_def)
    then have lsrc: "length ?src = ?s" by simp
    have split: "take remaining (concat (map bdata (drop i (bs_data b)))) =
        ?src @ take (remaining - ?s) (concat (map bdata (drop (Suc i) (bs_data b))))"
      using i len by (auto simp: drop_concat_step nBlocks_def min_def)
    have rem: "remaining - ?s \<le> (nPb - (i + 1)) * p"
    proof -
      have "(nPb - i) * p = (nPb - (i + 1)) * p + p"
        using True by (simp add: algebra_simps Suc_diff_Suc [symmetric] del: Suc_diff_Suc)
      then show ?thesis using "1.prems"(4) by (auto simp: min_def)
    qed
    have lbuf: "length (memcpy_at buf off ?src) = (off + ?s) + (remaining - ?s)"
      using "1.prems"(5) lsrc by (simp add: memcpy_at_def min_def)
    have tk: "take (off + ?s) (memcpy_at buf off ?src) = take off buf @ ?src"
      using "1.prems"(5) lsrc by (simp add: memcpy_at_def min_def)
    have "copy_loop p b nPb (i + 1) (off + ?s) (remaining - ?s) (memcpy_at buf off ?src) =
        Inr (take (off + ?s) (memcpy_at buf off ?src) @
             take (remaining - ?s) (concat (map bdata (drop (i + 1) (bs_data b)))))"
      by (rule "1.IH" [OF True refl gb "1.prems"(1,2,3) rem lbuf])
    then show ?thesis
      using True gb split tk
      by (subst copy_loop.simps) (simp add: Let_def)
  qed
qed

lemma capacity_pb_covers:
  assumes "0 < p"
  shows "lb * LOGICAL_BLOCK_SIZE \<le> capacity_pb p lb * p"
proof -
  let ?n = "lb * LOGICAL_BLOCK_SIZE"
  have "?n + p - 1 = (?n + p - 1) div p * p + (?n + p - 1) mod p" by simp
  moreover have "(?n + p - 1) mod p < p" using assms by simp
  ultimately have "?n + p - 1 < (?n + p - 1) div p * p + p" by linarith
  then show ?thesis using assms by (simp add: capacity_pb_def)
qed

lemma capacity_pb_le_blocks:
  assumes "0 < p" "lb * LOGICAL_BLOCK_SIZE \<le> n * p"
  shows "capacity_pb p lb \<le> n"
proof -
  have "lb * LOGICAL_BLOCK_SIZE + p - 1 < (n + 1) * p" using assms by simp
  then have "(lb * LOGICAL_BLOCK_SIZE + p - 1) div p < n + 1"
    using assms(1) by (simp add: less_mult_imp_div_less)
  then show ?thesis by (simp add: capacity_pb_def)
qed

lemma calcIsAllZero_eq:
  assumes "wf_blocks b" "ioSizeLb r * LOGICAL_BLOCK_SIZE \<le> nBlocks b * bs_pbs b"
  shows "calcIsAllZero b (ioSizeLb r) = Inr (calcIsAllZero_bytes (payload r b))"
  using assms calcIsAllZero_loop_eq [of b "ioSizeLb r * LOGICAL_BLOCK_SIZE" 0]
  by (simp add: calcIsAllZero_def payload_def wf_blocks_def)

lemma copy_loop_payload:
  assumes "wf_blocks b" "bs_pbs b = p" "ioSizeLb r * LOGICAL_BLOCK_SIZE \<le> nBlocks b * p"
  shows "copy_loop p b (ioSizePb r p) 0 0 (ioSizeLb r * LOGICAL_BLOCK_SIZE)
           (replicate (ioSizeLb r * LOGICAL_BLOCK_SIZE) 0) = Inr (payload r b)"
proof -
  from assms have p: "0 < p" by (auto simp: wf_blocks_def)
  have a: "ioSizePb r p \<le> nBlocks b"
    using capacity_pb_le_blocks [OF p assms(3)] by (simp add: ioSizePb_def ioSizeLb_def)
  have c: "ioSizeLb r * LOGICAL_BLOCK_SIZE \<le> (ioSizePb r p - 0) * p"
    using capacity_pb_covers [OF p, of "ioSizeLb r"] by (simp add: ioSizePb_def ioSizeLb_def)
  show ?thesis
    using copy_loop_eq [OF assms(1,2) a c, of "replicate (ioSizeLb r * LOGICAL_BLOCK_SIZE) 0" 0]
    by (simp add: payload_def)
qed



lemma ex_simps:
  "isPadding (ex_rec 3)" "\<not> isPadding (ex_rec 5)" "isDiscardLog (ex_rec 5)"
  "\<not> isPadding (ex_rec 1)" "\<not> isDiscardLog (ex_rec 1)"
  "wf_blocks (ex_blocks x)" "bs_pbs (ex_blocks x) = 512"
  "ioSizeLb (ex_rec 1) * LOGICAL_BLOCK_SIZE \<le> nBlocks (ex_blocks x) * 512"
  "unat (io_size (ex_rec 1)) < 2 ^ 16"
  "payload (ex_rec 1) (ex_blocks x) = replicate 512 x"
  "calcIsAllZero_bytes (replicate 512 x) \<longleftrightarrow> x = 0"
  by (simp_all add: ex_rec_def ex_blocks_def isPadding_def isDiscardLog_def test_bit_u32_def
      LOG_RECORD_PADDING_def LOG_RECORD_DISCARD_def wf_blocks_def ioSizeLb_def nBlocks_def
      LOGICAL_BLOCK_SIZE_def payload_def calcIsAllZero_bytes_def list_all_iff)









section \<open>The conversion of concatenated wlogs\<close>

lemma convertLogToDiff_returns:
  assumes "isPadding r \<or> isDiscardLog r \<or>
     (wf_blocks b \<and> bs_pbs b = p \<and> ioSizeLb r * LOGICAL_BLOCK_SIZE \<le> nBlocks b * p)"
  shows "\<exists>x. convertLogToDiff p r b io = Inr x"
proof (cases "isPadding r \<or> isDiscardLog r")
  case True
  then show ?thesis by (auto simp: convertLogToDiff_def Let_def)
next
  case False
  with assms have wf: "wf_blocks b" "bs_pbs b = p" "ioSizeLb r * LOGICAL_BLOCK_SIZE \<le> nBlocks b * p"
    by auto
  have z: "calcIsAllZero b (ioSizeLb r) = Inr (calcIsAllZero_bytes (payload r b))"
    using calcIsAllZero_eq [of b r] wf by simp
  have c: "copy_loop p b (ioSizePb r p) 0 0 (ioSizeLb r * LOGICAL_BLOCK_SIZE)
           (replicate (ioSizeLb r * LOGICAL_BLOCK_SIZE) 0) = Inr (payload r b)"
    by (rule copy_loop_payload [OF wf])
  show ?thesis
    using False z c
    by (cases "calcIsAllZero_bytes (payload r b)") (simp_all add: convertLogToDiff_def Let_def)
qed

lemma convert_logs_ok:
  assumes "list_all (\<lambda>(r, b). \<exists>x. convertLogToDiff p r b new_DiffIo = Inr x) logs"
  shows "\<exists>st'. convert_logs p logs st = Inr st' \<and> cv_lsid st' = cv_lsid st \<and> cv_uuid st' = cv_uuid st"
  using assms
proof (induction logs arbitrary: st)
  case Nil then show ?case by simp
next
  case (Cons a logs)
  obtain r b where a: "a = (r, b)" by (cases a)
  from Cons.prems a obtain x where x: "convertLogToDiff p r b new_DiffIo = Inr x" by auto
  from Cons.prems have rest: "list_all (\<lambda>(r, b). \<exists>x. convertLogToDiff p r b new_DiffIo = Inr x) logs"
    by simp
  show ?case
  proof (cases x)
    case None
    with Cons.IH [OF rest, of st] a x show ?thesis by simp
  next
    case (Some y)
    obtain m io where "y = (m, io)" by (cases y)
    with Cons.IH [OF rest, of "st\<lparr>cv_added := cv_added st @ [(m, io)],
                cv_writtenBlocks := cv_writtenBlocks st + ucast (io_blocks m)\<rparr>"] a x Some
    show ?thesis by simp
  qed
qed

lemma convert_logs_frame:
  "convert_logs p logs st = Inr st' \<Longrightarrow> cv_lsid st' = cv_lsid st \<and> cv_uuid st' = cv_uuid st"
proof (induction logs arbitrary: st)
  case Nil then show ?case by simp
next
  case (Cons a logs)
  obtain r b where a: "a = (r, b)" by (cases a)
  show ?case
    using Cons.prems Cons.IH a
    by (auto split: sum.splits option.splits)
qed

lemma convertWlog_first:
  assumes "convertible f" "cv_lsid st = - 1"
  shows "\<exists>st'. convertWlog st f = Inr st' \<and> cv_lsid st' = wl_end_lsid f \<and> cv_uuid st' = wl_uuid f"
proof -
  from assms(1) obtain st1 where
    "convert_logs (wl_pbs f) (wl_logs f) (st\<lparr>cv_uuid := wl_uuid f, cv_lsid := wl_begin_lsid f\<rparr>) = Inr st1"
    "cv_uuid st1 = wl_uuid f"
    using convert_logs_ok [of "wl_pbs f" "wl_logs f" "st\<lparr>cv_uuid := wl_uuid f, cv_lsid := wl_begin_lsid f\<rparr>"]
    by (auto simp: convertible_def)
  with assms show ?thesis by (simp add: convertWlog_def convertible_def)
qed

lemma convertWlog_later:
  assumes "convertible f" "cv_lsid st \<noteq> - 1"
  shows "convertWlog st f =
     (if wl_begin_lsid f \<noteq> cv_lsid st then Inl LsidMismatch
      else if wl_uuid f \<noteq> cv_uuid st then Inl UuidMismatch
      else convertWlog st f) \<and>
     (wl_begin_lsid f = cv_lsid st \<and> wl_uuid f = cv_uuid st \<longrightarrow>
       (\<exists>st'. convertWlog st f = Inr st' \<and> cv_lsid st' = wl_end_lsid f \<and> cv_uuid st' = cv_uuid st))"
proof -
  from assms(1) obtain st1 where
    "convert_logs (wl_pbs f) (wl_logs f) st = Inr st1" "cv_uuid st1 = cv_uuid st"
    using convert_logs_ok [of "wl_pbs f" "wl_logs f" st] by (auto simp: convertible_def)
  with assms show ?thesis by (auto simp: convertWlog_def convertible_def)
qed

lemma convert_loop_later:
  assumes "list_all (\<lambda>f. convertible f \<and> wl_end_lsid f \<noteq> - 1) fs" "cv_lsid st \<noteq> - 1"
  shows "case concat_check_spec (cv_lsid st) (cv_uuid st) fs of
           Some e \<Rightarrow> convert_loop st fs = Inl e
         | None \<Rightarrow> (\<exists>st'. convert_loop st fs = Inr st' \<and> cv_uuid st' = cv_uuid st \<and>
                      cv_lsid st' = (if fs = [] then cv_lsid st else wl_end_lsid (last fs)))"
  using assms
proof (induction fs arbitrary: st)
  case Nil then show ?case by simp
next
  case (Cons f fs)
  from Cons.prems have cf: "convertible f" and ef: "wl_end_lsid f \<noteq> - 1"
    and rest: "list_all (\<lambda>f. convertible f \<and> wl_end_lsid f \<noteq> - 1) fs" by simp_all
  note later = convertWlog_later [OF cf Cons.prems(2)]
  show ?case
  proof (cases "wl_begin_lsid f = cv_lsid st \<and> wl_uuid f = cv_uuid st")
    case False
    with later show ?thesis by auto
  next
    case True
    with later obtain st1 where st1: "convertWlog st f = Inr st1" "cv_lsid st1 = wl_end_lsid f"
      "cv_uuid st1 = cv_uuid st" by auto
    from Cons.IH [OF rest, of st1] st1 ef True show ?thesis
      by (auto split: option.splits)
  qed
qed

lemma convert_loop_append:
  "convert_loop st (xs @ ys) =
     (case convert_loop st xs of Inl e \<Rightarrow> Inl e | Inr st' \<Rightarrow> convert_loop st' ys)"
  by (induction xs arbitrary: st) (auto split: sum.splits)

lemma convertWlog_mismatch:
  assumes "wl_pbs g \<noteq> 0" "cv_lsid st \<noteq> - 1"
  shows "wl_begin_lsid g \<noteq> cv_lsid st \<Longrightarrow> convertWlog st g = Inl LsidMismatch"
    and "wl_begin_lsid g = cv_lsid st \<Longrightarrow> wl_uuid g \<noteq> cv_uuid st \<Longrightarrow> convertWlog st g = Inl UuidMismatch"
  using assms by (auto simp: convertWlog_def)

text \<open>C9, amended. For a concatenation of convertible wlogs none of which ends at the lsid
  \<open>uint64_t(-1)\<close>, the value that marks that no wlog has been converted yet, the conversion
  fails exactly when the check of the spec fails, with the same error: \<open>LsidMismatch\<close> at
  the first wlog after the first that does not begin at the end lsid of the one before it,
  \<open>UuidMismatch\<close> at the first whose uuid is not the uuid of the first wlog; otherwise
  the conversion succeeds, the uuid of the output is the uuid of the first wlog and the lsid
  is the end lsid of the last. The wlog at which the check fails need not be convertible, only
  have a block size other than 0, and nothing is asked of the wlogs after it: the lsid is
  checked first, then the uuid, before any record is read.\<close>

theorem concatenated_wlogs_checked:
  "(list_all (\<lambda>f. convertible f \<and> wl_end_lsid f \<noteq> - 1) (f1 # fs) \<longrightarrow>
      (case concat_check_spec (wl_end_lsid f1) (wl_uuid f1) fs of
         Some e \<Rightarrow> convert uuid0 (f1 # fs) = Inl e
       | None \<Rightarrow> (\<exists>st'. convert uuid0 (f1 # fs) = Inr st' \<and> cv_uuid st' = wl_uuid f1 \<and>
                    cv_lsid st' = wl_end_lsid (last (f1 # fs))))) \<and>
   (list_all (\<lambda>f. convertible f \<and> wl_end_lsid f \<noteq> - 1) (f1 # fs) \<and>
    concat_check_spec (wl_end_lsid f1) (wl_uuid f1) fs = None \<and> wl_pbs g \<noteq> 0 \<longrightarrow>
      (wl_begin_lsid g \<noteq> wl_end_lsid (last (f1 # fs)) \<longrightarrow>
         convert uuid0 (f1 # fs @ g # gs) = Inl LsidMismatch) \<and>
      (wl_begin_lsid g = wl_end_lsid (last (f1 # fs)) \<and> wl_uuid g \<noteq> wl_uuid f1 \<longrightarrow>
         convert uuid0 (f1 # fs @ g # gs) = Inl UuidMismatch))"
proof -
  let ?st0 = "\<lparr> cv_lsid = - 1, cv_writtenBlocks = 0, cv_uuid = uuid0, cv_added = [] \<rparr>"
  have main: "case concat_check_spec (wl_end_lsid f1) (wl_uuid f1) fs of
         Some e \<Rightarrow> convert uuid0 (f1 # fs) = Inl e
       | None \<Rightarrow> (\<exists>st'. convert uuid0 (f1 # fs) = Inr st' \<and> cv_uuid st' = wl_uuid f1 \<and>
                    cv_lsid st' = wl_end_lsid (last (f1 # fs)))"
    if a: "list_all (\<lambda>f. convertible f \<and> wl_end_lsid f \<noteq> - 1) (f1 # fs)"
  proof -
    from a have c1: "convertible f1" and e1: "wl_end_lsid f1 \<noteq> - 1"
      and rest: "list_all (\<lambda>f. convertible f \<and> wl_end_lsid f \<noteq> - 1) fs" by simp_all
    from convertWlog_first [OF c1, of ?st0] obtain st1 where
      st1: "convertWlog ?st0 f1 = Inr st1" "cv_lsid st1 = wl_end_lsid f1" "cv_uuid st1 = wl_uuid f1"
      by auto
    from convert_loop_later [OF rest, of st1] st1 e1 show ?thesis
      by (auto simp: convert_def split: option.splits)
  qed
  have fail: "(wl_begin_lsid g \<noteq> wl_end_lsid (last (f1 # fs)) \<longrightarrow>
         convert uuid0 (f1 # fs @ g # gs) = Inl LsidMismatch) \<and>
      (wl_begin_lsid g = wl_end_lsid (last (f1 # fs)) \<and> wl_uuid g \<noteq> wl_uuid f1 \<longrightarrow>
         convert uuid0 (f1 # fs @ g # gs) = Inl UuidMismatch)"
    if a: "list_all (\<lambda>f. convertible f \<and> wl_end_lsid f \<noteq> - 1) (f1 # fs)"
      and n: "concat_check_spec (wl_end_lsid f1) (wl_uuid f1) fs = None" and g: "wl_pbs g \<noteq> 0"
  proof -
    from main [OF a] n obtain st' where s: "convert uuid0 (f1 # fs) = Inr st'"
      "cv_uuid st' = wl_uuid f1" "cv_lsid st' = wl_end_lsid (last (f1 # fs))" by auto
    from a have "wl_end_lsid (last (f1 # fs)) \<noteq> - 1"
      by (metis (mono_tags, lifting) last_in_set list.distinct(1) list_all_iff)
    with s have l: "cv_lsid st' \<noteq> - 1" by simp
    have "convert uuid0 (f1 # fs @ g # gs) =
        (case convertWlog st' g of Inl e \<Rightarrow> Inl e | Inr st'' \<Rightarrow> convert_loop st'' gs)"
      using s(1) convert_loop_append [of ?st0 "f1 # fs" "g # gs"] by (simp add: convert_def)
    with convertWlog_mismatch [OF g l] s(2,3) show ?thesis by auto
  qed
  from main fail show ?thesis by blast
qed

text \<open>The value \<open>uint64_t(-1)\<close> of \<open>lsid\<close> marks the first wlog. A wlog that ends at this
  lsid makes the next one a first wlog again: its begin lsid and its uuid are not checked,
  and its uuid replaces the one of the output.\<close>

lemma sentinel_end_lsid_restarts:
  assumes "convertible f" "cv_lsid st = - 1"
  shows "\<exists>st'. convertWlog st f = Inr st' \<and> cv_uuid st' = wl_uuid f"
  using convertWlog_first [OF assms] by auto

lemma ex_wlog_convertible: "convertible (ex_wlog u b e)"
proof -
  have "\<exists>x. convertLogToDiff 512 (ex_rec 1) (ex_blocks 1) new_DiffIo = Inr x"
    by (rule convertLogToDiff_returns) (simp add: ex_simps)
  moreover have "\<exists>x. convertLogToDiff 512 (ex_rec 5) (ex_blocks 0) new_DiffIo = Inr x"
    by (rule convertLogToDiff_returns) (simp add: ex_simps)
  moreover have "\<exists>x. convertLogToDiff 512 (ex_rec 3) (ex_blocks 0) new_DiffIo = Inr x"
    by (rule convertLogToDiff_returns) (simp add: ex_simps)
  ultimately show ?thesis by (simp add: convertible_def ex_wlog_def)
qed

theorem concatenated_wlogs_checked_witness:
  "list_all (\<lambda>f. convertible f \<and> wl_end_lsid f \<noteq> - 1) [ex_wlog [1] 0 10, ex_wlog [1] 10 20] \<and>
   concat_check_spec (wl_end_lsid (ex_wlog [1] 0 10)) (wl_uuid (ex_wlog [1] 0 10)) [ex_wlog [1] 10 20] = None \<and>
   (\<exists>st'. convert [] [ex_wlog [1] 0 10, ex_wlog [1] 10 20] = Inr st' \<and> cv_uuid st' = [1] \<and>
      cv_lsid st' = 20) \<and>
   list_all (\<lambda>f. convertible f \<and> wl_end_lsid f \<noteq> - 1) [ex_wlog [1] 0 10, ex_wlog [1] 11 20] \<and>
   convert [] [ex_wlog [1] 0 10, ex_wlog [1] 11 20] = Inl LsidMismatch \<and>
   list_all (\<lambda>f. convertible f \<and> wl_end_lsid f \<noteq> - 1) [ex_wlog [1] 0 10, ex_wlog [2] 10 20] \<and>
   convert [] [ex_wlog [1] 0 10, ex_wlog [2] 10 20] = Inl UuidMismatch \<and>
   wl_pbs (ex_wlog [1] 21 30) \<noteq> 0 \<and> wl_pbs (ex_wlog [2] 20 30) \<noteq> 0 \<and>
   wl_begin_lsid (ex_wlog [1] 21 30) \<noteq> wl_end_lsid (last [ex_wlog [1] 0 10, ex_wlog [1] 10 20]) \<and>
   convert [] ([ex_wlog [1] 0 10, ex_wlog [1] 10 20] @ ex_wlog [1] 21 30 # [ex_wlog [3] 7 8])
     = Inl LsidMismatch \<and>
   wl_begin_lsid (ex_wlog [2] 20 30) = wl_end_lsid (last [ex_wlog [1] 0 10, ex_wlog [1] 10 20]) \<and>
   wl_uuid (ex_wlog [2] 20 30) \<noteq> wl_uuid (ex_wlog [1] 0 10) \<and>
   convert [] ([ex_wlog [1] 0 10, ex_wlog [1] 10 20] @ ex_wlog [2] 20 30 # [ex_wlog [3] 7 8])
     = Inl UuidMismatch"
  using concatenated_wlogs_checked [of "ex_wlog [1] 0 10" "[ex_wlog [1] 10 20]" "[]" "ex_wlog [1] 21 30" "[ex_wlog [3] 7 8]"]
    concatenated_wlogs_checked [of "ex_wlog [1] 0 10" "[ex_wlog [1] 10 20]" "[]" "ex_wlog [2] 20 30" "[ex_wlog [3] 7 8]"]
    concatenated_wlogs_checked [of "ex_wlog [1] 0 10" "[ex_wlog [1] 11 20]" "[]"]
    concatenated_wlogs_checked [of "ex_wlog [1] 0 10" "[ex_wlog [2] 10 20]" "[]"]
  by (simp add: ex_wlog_convertible) (simp add: ex_wlog_def)

text \<open>C9 as stated fails after a wlog that ends at the lsid \<open>uint64_t(-1)\<close>: the next wlog
  begins at another lsid and has another uuid, yet the conversion succeeds and the output
  carries the uuid of the second wlog.\<close>

theorem sentinel_end_lsid_skips_checks:
  "wl_begin_lsid (ex_wlog [2] 5 20) \<noteq> wl_end_lsid (ex_wlog [1] 0 (- 1)) \<and>
   wl_uuid (ex_wlog [2] 5 20) \<noteq> wl_uuid (ex_wlog [1] 0 (- 1)) \<and>
   (\<exists>st'. convert [] [ex_wlog [1] 0 (- 1), ex_wlog [2] 5 20] = Inr st' \<and>
      cv_uuid st' = [2] \<and> cv_lsid st' = 20)"
proof -
  let ?st0 = "\<lparr> cv_lsid = - 1, cv_writtenBlocks = 0, cv_uuid = [], cv_added = [] \<rparr>"
  from convertWlog_first [OF ex_wlog_convertible, of ?st0 "[1]" 0 "- 1"] obtain st1 where
    st1: "convertWlog ?st0 (ex_wlog [1] 0 (- 1)) = Inr st1" "cv_lsid st1 = - 1"
    by (auto simp: ex_wlog_def)
  from convertWlog_first [OF ex_wlog_convertible st1(2), of "[2]" 5 20] obtain st2 where
    st2: "convertWlog st1 (ex_wlog [2] 5 20) = Inr st2" "cv_lsid st2 = 20" "cv_uuid st2 = [2]"
    by (auto simp: ex_wlog_def)
  have "convert [] [ex_wlog [1] 0 (- 1), ex_wlog [2] 5 20] = Inr st2"
    using st1(1) st2(1) by (simp add: convert_def)
  with st2 show ?thesis by (simp add: ex_wlog_def)
qed

section \<open>Coalescing of adjacent IOs\<close>

lemma tryMerge_True:
  "tryMerge io0 io1 = (True, a, b) \<longleftrightarrow>
     canMerge io0 io1 \<and> a = io0\<lparr>ioSize := ioSize io0 + ioSize io1, blocks := blocks io0 @ blocks io1\<rparr> \<and>
     b = io1\<lparr>blocks := []\<rparr>"
  by (auto simp: tryMerge_def)

lemma IoQueue_tryMerge_True:
  "IoQueue_tryMerge io0 io1 = (True, a, b) \<longleftrightarrow>
     ioSize io0 + ioSize io1 \<le> maxIoSize \<and> canMerge io0 io1 \<and>
     a = io0\<lparr>ioSize := ioSize io0 + ioSize io1, blocks := blocks io0 @ blocks io1\<rparr> \<and>
     b = io1\<lparr>blocks := []\<rparr>"
  by (auto simp: IoQueue_tryMerge_def tryMerge_True)

lemma IoQueue_tryMerge_False:
  "IoQueue_tryMerge io0 io1 = (False, a, b) \<longleftrightarrow>
     \<not> (ioSize io0 + ioSize io1 \<le> maxIoSize \<and> canMerge io0 io1) \<and> a = io0 \<and> b = io1"
  by (auto simp: IoQueue_tryMerge_def tryMerge_def)

text \<open>C7: the queue merges the new IO into its last IO exactly when the two have blocks, the
  target of the new IO starts where the target of the last one ends, its buffer starts where
  the bytes of the last one end in memory, and the two sizes together are at most 1 MiB. The
  merge adds the size of the new IO to the last one and moves its blocks behind the blocks of
  the last one; nothing else of the two IOs changes, and the new IO is not queued. Otherwise
  the new IO is queued behind the last one and no IO changes.\<close>

theorem coalesce_conditions:
  "maxIoSize = 1048576 \<and>
   (IoQueue_tryMerge io0 io1 = (True, a, b) \<longrightarrow>
      ioOffset io0 + int (ioSize io0) = ioOffset io1 \<and>
      blocks io0 \<noteq> [] \<and> blocks io1 \<noteq> [] \<and>
      baddr (hd (blocks io0)) + ioSize io0 = baddr (hd (blocks io1)) \<and>
      ioSize io0 + ioSize io1 \<le> 1048576 \<and>
      a = io0\<lparr>ioSize := ioSize io0 + ioSize io1, blocks := blocks io0 @ blocks io1\<rparr> \<and>
      b = io1\<lparr>blocks := []\<rparr>) \<and>
   (blocks io0 \<noteq> [] \<and> blocks io1 \<noteq> [] \<and> ioOffset io0 + int (ioSize io0) = ioOffset io1 \<and>
    baddr (hd (blocks io0)) + ioSize io0 = baddr (hd (blocks io1)) \<and>
    ioSize io0 + ioSize io1 \<le> 1048576 \<longrightarrow> fst (IoQueue_tryMerge io0 io1)) \<and>
   (q \<noteq> [] \<longrightarrow>
      IoQueue_add st q iop =
        (if fst (IoQueue_tryMerge (st (last q)) (st iop))
         then (st(last q := (st (last q))\<lparr>ioSize := ioSize (st (last q)) + ioSize (st iop),
                                       blocks := blocks (st (last q)) @ blocks (st iop)\<rparr>,
                  iop := (st iop)\<lparr>blocks := []\<rparr>), q)
         else (st, q @ [iop])))"
proof (intro conjI impI)
  show "maxIoSize = 1048576" by (simp add: maxIoSize_def)
next
  assume m: "IoQueue_tryMerge io0 io1 = (True, a, b)"
  then show "ioOffset io0 + int (ioSize io0) = ioOffset io1"
    "blocks io0 \<noteq> []" "blocks io1 \<noteq> []"
    "baddr (hd (blocks io0)) + ioSize io0 = baddr (hd (blocks io1))"
    "ioSize io0 + ioSize io1 \<le> 1048576"
    "a = io0\<lparr>ioSize := ioSize io0 + ioSize io1, blocks := blocks io0 @ blocks io1\<rparr>"
    "b = io1\<lparr>blocks := []\<rparr>"
    by (auto simp: IoQueue_tryMerge_True canMerge_def maxIoSize_def split: if_splits)
next
  assume "blocks io0 \<noteq> [] \<and> blocks io1 \<noteq> [] \<and> ioOffset io0 + int (ioSize io0) = ioOffset io1 \<and>
    baddr (hd (blocks io0)) + ioSize io0 = baddr (hd (blocks io1)) \<and>
    ioSize io0 + ioSize io1 \<le> 1048576"
  then show "fst (IoQueue_tryMerge io0 io1)"
    by (simp add: IoQueue_tryMerge_def tryMerge_def canMerge_def maxIoSize_def)
next
  assume q: "q \<noteq> []"
  obtain f a b where r: "IoQueue_tryMerge (st (last q)) (st iop) = (f, a, b)"
    by (cases "IoQueue_tryMerge (st (last q)) (st iop)")
  show "IoQueue_add st q iop =
        (if fst (IoQueue_tryMerge (st (last q)) (st iop))
         then (st(last q := (st (last q))\<lparr>ioSize := ioSize (st (last q)) + ioSize (st iop),
                                       blocks := blocks (st (last q)) @ blocks (st iop)\<rparr>,
                  iop := (st iop)\<lparr>blocks := []\<rparr>), q)
         else (st, q @ [iop]))"
  proof (cases f)
    case True
    with r have "a = (st (last q))\<lparr>ioSize := ioSize (st (last q)) + ioSize (st iop),
                                       blocks := blocks (st (last q)) @ blocks (st iop)\<rparr>"
      "b = (st iop)\<lparr>blocks := []\<rparr>"
      by (simp_all add: IoQueue_tryMerge_True)
    with True r q show ?thesis by (simp add: IoQueue_add_def)
  next
    case False
    with r q show ?thesis by (simp add: IoQueue_add_def)
  qed
qed

theorem coalesce_conditions_witness:
  "IoQueue_tryMerge (ex_io 0 4096 0) (ex_io 512 4608 1) =
     (True, (ex_io 0 4096 0)\<lparr>ioSize := 1024, blocks := blocks (ex_io 0 4096 0) @ blocks (ex_io 512 4608 1)\<rparr>,
      (ex_io 512 4608 1)\<lparr>blocks := []\<rparr>) \<and>
   ioOffset (ex_io 0 4096 0) + int (ioSize (ex_io 0 4096 0)) = ioOffset (ex_io 512 4608 1) \<and>
   blocks (ex_io 0 4096 0) \<noteq> [] \<and> blocks (ex_io 512 4608 1) \<noteq> [] \<and>
   baddr (hd (blocks (ex_io 0 4096 0))) + ioSize (ex_io 0 4096 0) = baddr (hd (blocks (ex_io 512 4608 1))) \<and>
   ioSize (ex_io 0 4096 0) + ioSize (ex_io 512 4608 1) \<le> 1048576 \<and>
   fst (IoQueue_tryMerge (ex_io 0 4096 0) (ex_io 512 4608 1)) \<and>
   [0::nat] \<noteq> [] \<and>
   IoQueue_add ((\<lambda>_. null_Io)(0 := ex_io 0 4096 0, 1 := ex_io 512 8192 1)) [0] 1 =
     ((\<lambda>_. null_Io)(0 := ex_io 0 4096 0, 1 := ex_io 512 8192 1), [0, 1])"
  using coalesce_conditions [of "ex_io 0 4096 0" "ex_io 512 4608 1"
      "(ex_io 0 4096 0)\<lparr>ioSize := 1024, blocks := blocks (ex_io 0 4096 0) @ blocks (ex_io 512 4608 1)\<rparr>"
      "(ex_io 512 4608 1)\<lparr>blocks := []\<rparr>" "[0]"
      "(\<lambda>_. null_Io)(0 := ex_io 0 4096 0, 1 := ex_io 512 8192 1)" 1]
  by (simp add: ex_io_def new_Io_def IoQueue_tryMerge_def tryMerge_def canMerge_def maxIoSize_def)

section \<open>Insertion into the overlap data\<close>





lemma ins_loop_fold: "ins_loop st iop es = fold (ins_step iop) es st"
  by (induction es arbitrary: st) (simp_all add: ins_step_def Let_def)

lemma overwritten_simps [simp]:
  "ioOffset (overwritten io) = ioOffset io" "ioSize (overwritten io) = ioSize io"
  "isSubmitted (overwritten io) = isSubmitted io" "nOverlapped (overwritten io) = nOverlapped io"
  "isOverwritten (overwritten io)" "isCompleted (overwritten io) = isCompleted io"
  "blocks io = [] \<Longrightarrow> blocks (overwritten io) = []"
  "\<not> isSubmitted io \<Longrightarrow> \<not> isOverwritten io \<Longrightarrow> blocks (overwritten io) = []"
  by (simp_all add: overwritten_def)


lemma same_geometry_refl [simp]: "same_geometry st st"
  by (simp add: same_geometry_def)











section \<open>The evolution of the IOs during a replay\<close>

lemma io_evolves_refl [simp]: "io_evolves a a"
  by (simp add: io_evolves_def)

lemma io_evolves_trans: "io_evolves a b \<Longrightarrow> io_evolves b c \<Longrightarrow> io_evolves a c"
  by (auto simp: io_evolves_def)

lemma evolves_refl [simp]: "evolves s s"
  by (simp add: evolves_def)

lemma write_of_evolves:
  assumes "\<forall>p. io_evolves (st p) (st' p)" "write_of st' w"
  shows "write_of st w"
  using assms by (auto simp: write_of_def io_evolves_def)

lemma evolves_trans:
  assumes "evolves a b" "evolves b c"
  shows "evolves a c"
proof -
  from assms(1) obtain ws1 where w1: "aio_writes b = aio_writes a @ ws1" "list_all (write_of (ios a)) ws1"
    and e1: "\<forall>p. io_evolves (ios a p) (ios b p)" and n1: "nextIo b = nextIo a" "nClipped b = nClipped a"
    by (auto simp: evolves_def)
  from assms(2) obtain ws2 where w2: "aio_writes c = aio_writes b @ ws2" "list_all (write_of (ios b)) ws2"
    and e2: "\<forall>p. io_evolves (ios b p) (ios c p)" and n2: "nextIo c = nextIo b" "nClipped c = nClipped b"
    by (auto simp: evolves_def)
  have "list_all (write_of (ios a)) ws2"
    using w2(2) write_of_evolves [OF e1] by (auto simp: list_all_iff)
  with w1 w2 have "aio_writes c = aio_writes a @ (ws1 @ ws2) \<and> list_all (write_of (ios a)) (ws1 @ ws2)"
    by simp
  moreover have "\<forall>p. io_evolves (ios a p) (ios c p)"
    using e1 e2 io_evolves_trans by blast
  ultimately show ?thesis
    unfolding evolves_def using n1 n2 by metis
qed

lemma evolves_same_writes:
  assumes "nextIo s' = nextIo s" "nClipped s' = nClipped s" "aio_writes s' = aio_writes s"
    "\<forall>p. io_evolves (ios s p) (ios s' p)"
  shows "evolves s s'"
  using assms by (simp add: evolves_def)

lemma submitIos_loop_evolves:
  "submitIos_loop q s = Some s' \<Longrightarrow> evolves s s'"
proof (induction q arbitrary: s)
  case Nil
  then show ?case by simp
next
  case (Cons iop q)
  let ?s1 = "s\<lparr>submitIoQ := q\<rparr>"
  have e1: "evolves s ?s1" by (rule evolves_same_writes) simp_all
  show ?case
  proof (cases "isOverwritten (ios s iop)")
    case True
    with Cons.prems have "submitIos_loop q ?s1 = Some s'" by (simp add: Let_def)
    from Cons.IH [OF this] e1 show ?thesis by (rule evolves_trans [rotated])
  next
    case False
    let ?io = "ios s iop"
    let ?s2 = "?s1\<lparr>ios := (ios ?s1)(iop := ?io\<lparr>aioKey := length (aio_writes ?s1) + 1, isSubmitted := True\<rparr>),
              aio_writes := aio_writes ?s1 @
                [\<lparr> w_io = iop, w_offset = ioOffset ?io, w_size = ioSize ?io,
                   w_data = take (ioSize ?io) (concat (map bdata (blocks ?io))) \<rparr>]\<rparr>"
    from False Cons.prems have r: "submitIos_loop q ?s2 = Some s'"
      by (simp add: Let_def split: if_splits)
    have "evolves s ?s2"
      unfolding evolves_def using False
      by (auto simp: io_evolves_def write_of_def)
    from this Cons.IH [OF r] show ?thesis by (rule evolves_trans)
  qed
qed

lemma submitIos_evolves: "submitIos s = Some s' \<Longrightarrow> evolves s s'"
  by (auto simp: submitIos_def submitIos_loop_evolves split: if_splits)

lemma scheduleIos_loop_evolves:
  "scheduleIos_loop cfg q s = Some s' \<Longrightarrow> evolves s s'"
proof (induction q arbitrary: s)
  case Nil
  then show ?case by simp
next
  case (Cons iop q)
  let ?s1 = "s\<lparr>readyIoQ := q\<rparr>"
  let ?s2 = "?s1\<lparr>submitIoQ := insert_by_offset (ios ?s1) iop (submitIoQ ?s1)\<rparr>"
  have e1: "evolves s ?s1" by (rule evolves_same_writes) simp_all
  have e2: "evolves s ?s2" by (rule evolves_same_writes) simp_all
  show ?case
  proof (cases "isOverwritten (ios s iop)")
    case True
    with Cons.prems have "scheduleIos_loop cfg q ?s1 = Some s'" by (simp add: Let_def)
    from e1 Cons.IH [OF this] show ?thesis by (rule evolves_trans)
  next
    case False
    show ?thesis
    proof (cases "queueSize cfg \<le> length (submitIoQ ?s2)")
      case True
      with False Cons.prems obtain s3 where s3: "submitIos ?s2 = Some s3"
        "scheduleIos_loop cfg q s3 = Some s'"
        by (auto simp: Let_def split: option.splits)
      from e2 submitIos_evolves [OF s3(1)] have "evolves s s3" by (rule evolves_trans)
      from this Cons.IH [OF s3(2)] show ?thesis by (rule evolves_trans)
    next
      case nf: False
      with False Cons.prems have "scheduleIos_loop cfg q ?s2 = Some s'"
        by (simp add: Let_def)
      from e2 Cons.IH [OF this] show ?thesis by (rule evolves_trans)
    qed
  qed
qed

lemma scheduleIos_evolves: "scheduleIos cfg s = Some s' \<Longrightarrow> evolves s s'"
  by (simp add: scheduleIos_def scheduleIos_loop_evolves)

lemma del_loop_evolves:
  "del_loop st iop es q = (st', q') \<Longrightarrow> io_evolves (st p) (st' p)"
proof (induction es arbitrary: st q)
  case Nil
  then show ?case by simp
next
  case (Cons e es)
  show ?case
  proof (cases "isOverlapped (st (snd e)) (st iop)")
    case False
    with Cons.prems Cons.IH [of st q] show ?thesis by (simp add: Let_def)
  next
    case True
    let ?st1 = "st(snd e := (st (snd e))\<lparr>nOverlapped := (nOverlapped (st (snd e)) + 2 ^ 32 - 1) mod 2 ^ 32\<rparr>)"
    from True Cons.prems have
      "del_loop ?st1 iop es (if nOverlapped (?st1 (snd e)) = 0 then q @ [snd e] else q) = (st', q')"
      by (simp add: Let_def)
    from Cons.IH [OF this] have "io_evolves (?st1 p) (st' p)" .
    moreover have "io_evolves (st p) (?st1 p)" by (simp add: io_evolves_def)
    ultimately show ?thesis by (rule io_evolves_trans [rotated])
  qed
qed

lemma del_evolves:
  "del st ol iop = (st', ol', q) \<Longrightarrow> io_evolves (st p) (st' p)"
  by (auto simp: del_def Let_def split: prod.splits dest: del_loop_evolves)

lemma push_ready_frame:
  "ios (push_ready tmp s) = ios s" "nextIo (push_ready tmp s) = nextIo s"
  "aio_writes (push_ready tmp s) = aio_writes s" "nClipped (push_ready tmp s) = nClipped s"
  "nWritten (push_ready tmp s) = nWritten s" "nOverwritten (push_ready tmp s) = nOverwritten s"
  unfolding push_ready_def by (induction tmp arbitrary: s) auto

lemma complete_io_evolves: "evolves s (complete_io cfg iop s)"
proof -
  let ?s2 = "(if isSubmitted (ios s iop)
                then s\<lparr>ios := (ios s)(iop := (ios s iop)\<lparr>isCompleted := True\<rparr>),
                        nWritten := nWritten s + 1\<rparr>
                else s\<lparr>nOverwritten := nOverwritten s + 1\<rparr>)"
  let ?s3 = "?s2\<lparr>nPendingBlocks :=
                 (nPendingBlocks ?s2 + 2 ^ 64 - bytesToPb cfg (ioSize (ios ?s2 iop)) mod 2 ^ 64) mod 2 ^ 64\<rparr>"
  obtain st ol tmp where d: "del (ios ?s3) (olData ?s3) iop = (st, ol, tmp)"
    by (cases "del (ios ?s3) (olData ?s3) iop")
  have c: "complete_io cfg iop s = push_ready tmp (?s3\<lparr>ios := st, olData := ol\<rparr>)"
    using d by (simp add: complete_io_def Let_def)
  have e3: "\<forall>p. io_evolves (ios s p) (ios ?s3 p)" by (simp add: io_evolves_def)
  have "\<forall>p. io_evolves (ios s p) (st p)"
    using e3 del_evolves [OF d] io_evolves_trans by blast
  then show ?thesis
    unfolding c by (intro evolves_same_writes) (simp_all add: push_ready_frame)
qed

lemma waitForAnIoCompletion_evolves:
  assumes "waitForAnIoCompletion cfg s = Some s'"
  shows "evolves s s'"
proof (cases "ioQ s")
  case Nil
  with assms show ?thesis by (simp add: waitForAnIoCompletion_def)
next
  case (Cons iop q)
  let ?s0 = "s\<lparr>ioQ := q\<rparr>"
  have e0: "evolves s ?s0" by (rule evolves_same_writes) simp_all
  show ?thesis
  proof (cases "\<not> isSubmitted (ios s iop) \<and> \<not> isOverwritten (ios s iop)")
    case True
    with assms Cons obtain sa s1 where a: "scheduleIos cfg ?s0 = Some sa" "submitIos sa = Some s1"
      "s' = complete_io cfg iop s1"
      by (auto simp: waitForAnIoCompletion_def Let_def split: option.splits)
    have "evolves s sa" by (rule evolves_trans [OF e0 scheduleIos_evolves [OF a(1)]])
    then have "evolves s s1" by (rule evolves_trans [OF _ submitIos_evolves [OF a(2)]])
    then show ?thesis unfolding a(3) by (rule evolves_trans [OF _ complete_io_evolves])
  next
    case False
    with assms Cons have "s' = complete_io cfg iop ?s0"
      by (auto simp: waitForAnIoCompletion_def Let_def)
    then show ?thesis using evolves_trans [OF e0 complete_io_evolves] by simp
  qed
qed

lemma waitForAllPendingIos_evolves:
  "waitForAllPendingIos cfg s = Some s' \<Longrightarrow> evolves s s'"
proof (induction cfg s rule: waitForAllPendingIos.induct)
  case (1 cfg s)
  show ?case
  proof (cases "ioQ s \<noteq> [] \<or> readyIoQ s \<noteq> []")
    case False
    with "1.prems" show ?thesis by (simp add: waitForAllPendingIos.simps)
  next
    case True
    with "1.prems" obtain s1 where s1: "waitForAnIoCompletion cfg s = Some s1"
      "waitForAllPendingIos cfg s1 = Some s'"
      by (subst (asm) waitForAllPendingIos.simps) (auto split: option.splits)
    from waitForAnIoCompletion_evolves [OF s1(1)] "1.IH" [OF True s1(1) s1(2)]
    show ?thesis by (rule evolves_trans)
  qed
qed

lemma prepareIos_wait_evolves:
  "prepareIos_wait cfg n s = Some s' \<Longrightarrow> evolves s s'"
proof (induction cfg n s rule: prepareIos_wait.induct)
  case (1 cfg n s)
  show ?case
  proof (cases "ioQ s \<noteq> [] \<and> queueSize cfg < nPendingBlocks s + n")
    case False
    with "1.prems" show ?thesis by (simp add: prepareIos_wait.simps)
  next
    case True
    with "1.prems" obtain s1 where s1: "waitForAnIoCompletion cfg s = Some s1"
      "prepareIos_wait cfg n s1 = Some s'"
      by (subst (asm) prepareIos_wait.simps) (auto split: option.splits)
    from waitForAnIoCompletion_evolves [OF s1(1)] "1.IH" [OF True s1(1) s1(2)]
    show ?thesis by (rule evolves_trans)
  qed
qed

lemma ins_step_evolves: "io_evolves (st p) (ins_step iop e st p)"
  by (auto simp: ins_step_def Let_def io_evolves_def)

lemma fold_ins_step_evolves: "io_evolves (st p) (fold (ins_step iop) es st p)"
proof (induction es arbitrary: st)
  case Nil
  then show ?case by simp
next
  case (Cons e es)
  have "io_evolves (ins_step iop e st p) (fold (ins_step iop) (e # es) st p)"
    using Cons.IH [of "ins_step iop e st"] by simp
  with ins_step_evolves [of st p iop e] show ?case by (rule io_evolves_trans)
qed

lemma ins_evolves: "ins st ol iop = (st', ol') \<Longrightarrow> io_evolves (st p) (st' p)"
proof -
  assume a: "ins st ol iop = (st', ol')"
  let ?st0 = "st(iop := (st iop)\<lparr>nOverlapped := 0\<rparr>)"
  have "st' = fold (ins_step iop) (search_range ol (st iop)) ?st0"
    using a by (simp add: ins_def Let_def ins_loop_fold)
  moreover have "io_evolves (st p) (?st0 p)" by (simp add: io_evolves_def)
  ultimately show ?thesis
    using fold_ins_step_evolves [of ?st0 p iop "search_range ol (st iop)"]
    by (auto intro: io_evolves_trans)
qed

lemma enqueue_io_evolves: "evolves s (enqueue_io iop s)"
proof -
  obtain st ol where i: "ins (ios s) (olData s) iop = (st, ol)"
    by (cases "ins (ios s) (olData s) iop")
  have "\<forall>p. io_evolves (ios s p) (st p)" using ins_evolves [OF i] by simp
  then show ?thesis
    by (intro evolves_same_writes) (simp_all add: enqueue_io_def i Let_def)
qed

lemma fold_enqueue_io_evolves: "evolves s (fold enqueue_io q s)"
proof (induction q arbitrary: s)
  case Nil
  then show ?case by simp
next
  case (Cons iop q)
  have "evolves (enqueue_io iop s) (fold enqueue_io (iop # q) s)"
    using Cons.IH [of "enqueue_io iop s"] by simp
  with enqueue_io_evolves [of s iop] show ?case by (rule evolves_trans)
qed

lemma prepareIos_evolves:
  assumes "prepareIos cfg q n s = Some s'"
  shows "evolves s s'"
proof -
  from assms obtain s1 where s1: "prepareIos_wait cfg n s = Some s1"
    "s' = fold enqueue_io q (s1\<lparr>nPendingBlocks := (nPendingBlocks s1 + n) mod 2 ^ 64\<rparr>)"
    by (auto simp: prepareIos_def split: option.splits)
  have "evolves s1 (s1\<lparr>nPendingBlocks := (nPendingBlocks s1 + n) mod 2 ^ 64\<rparr>)"
    by (rule evolves_same_writes) simp_all
  from evolves_trans [OF prepareIos_wait_evolves [OF s1(1)] this] fold_enqueue_io_evolves
  show ?thesis unfolding s1(2) by (rule evolves_trans)
qed

lemma redoDiscard_evolves:
  assumes "redoDiscard cfg r s = Some s'"
  shows "evolves s s'"
proof -
  from assms obtain s1 where s1: "waitForAllPendingIos cfg s = Some s1"
    "s' = s1\<lparr>discards := discards s1 @ [(unat (offset r * 512), ioSizeLb r * LOGICAL_BLOCK_SIZE)],
                   nDiscard := nDiscard s1 + ioSizePb r (cfg_pbs cfg)\<rparr>"
    by (auto simp: redoDiscard_def split: option.splits)
  have "evolves s1 s'" unfolding s1(2) by (rule evolves_same_writes) simp_all
  from waitForAllPendingIos_evolves [OF s1(1)] this show ?thesis by (rule evolves_trans)
qed

section \<open>Byte offsets and ranges\<close>

text \<open>The byte offset of an IO is a 64-bit value read as an \<open>off_t\<close>; under \<open>2 ^ 63\<close> the
  signed and the unsigned reading agree and the sums do not wrap.\<close>

lemma sint_of_small:
  fixes w :: "64 word"
  assumes "unat w < 2 ^ 63"
  shows "sint w = int (unat w)"
proof -
  have u: "uint w = int (unat w)" by (rule uint_nat)
  have "int (unat w) < int (2 ^ 63)" using assms by (simp only: of_nat_less_iff)
  then have lt: "int (unat w) < 2 ^ 63" by simp
  have ge: "- (2 ^ 63) \<le> int (unat w)" by (rule order_trans [of _ 0]) simp_all
  have "sint w = signed_take_bit 63 (uint w)" by (simp add: sint_uint)
  also have "\<dots> = signed_take_bit 63 (int (unat w))" by (simp only: u)
  also have "\<dots> = int (unat w)" by (rule signed_take_bit_int_eq_self [OF ge lt])
  finally show ?thesis .
qed

lemma unat_add_small:
  fixes w :: "64 word"
  assumes "unat w + n < 2 ^ 64"
  shows "unat (w + of_nat n) = unat w + n"
proof -
  have n: "n < 2 ^ 64" using assms by simp
  have "unat (of_nat n :: 64 word) = n"
    unfolding unat_of_nat using n by simp
  moreover have "unat (w + of_nat n) = (unat w + unat (of_nat n :: 64 word)) mod 2 ^ 64"
    by (simp only: unat_word_ariths) simp
  ultimately show ?thesis using assms by simp
qed

lemma unat_mult_512:
  fixes w :: "64 word"
  assumes "unat w * 512 < 2 ^ 64"
  shows "unat (w * 512) = unat w * 512"
proof -
  have "unat (w * 512) = (unat w * unat (512 :: 64 word)) mod 2 ^ 64"
    by (simp only: unat_word_ariths) simp
  then show ?thesis using assms by simp
qed

lemma evolves_range_inv:
  assumes "evolves s s'" "range_inv cfg s"
  shows "range_inv cfg s'"
proof -
  from assms(1) obtain ws where ws: "aio_writes s' = aio_writes s @ ws" "list_all (write_of (ios s)) ws"
    and e: "\<forall>p. io_evolves (ios s p) (ios s' p)"
    by (auto simp: evolves_def)
  have "in_range cfg (ios s' p)" for p
    using e assms(2) by (auto simp: range_inv_def in_range_def io_evolves_def)
  moreover have "write_in_range cfg w" if "w \<in> set ws" for w
  proof -
    from that ws(2) have "write_of (ios s) w" by (simp add: list_all_iff)
    moreover from assms(2) have "in_range cfg (ios s (w_io w))" by (simp add: range_inv_def)
    ultimately show ?thesis by (simp add: write_of_def write_in_range_def in_range_def)
  qed
  ultimately show ?thesis
    using assms(2) ws(1) by (auto simp: range_inv_def list_all_iff)
qed


section \<open>The IOs of a record\<close>

lemma IoQueue_add_cases:
  assumes "IoQueue_add st q iop = (st', q')"
  shows "st' = st \<or>
         (q \<noteq> [] \<and> canMerge (st (last q)) (st iop) \<and>
          st' = st(last q := (st (last q))\<lparr>ioSize := ioSize (st (last q)) + ioSize (st iop),
                                           blocks := blocks (st (last q)) @ blocks (st iop)\<rparr>,
                   iop := (st iop)\<lparr>blocks := []\<rparr>))"
  using assms
  by (auto simp: IoQueue_add_def IoQueue_tryMerge_def tryMerge_def split: if_splits)

lemma IoQueue_add_in_range:
  assumes "IoQueue_add st q iop = (st', q')" "\<forall>p. in_range cfg (st p)"
  shows "in_range cfg (st' p)"
proof -
  have a: "in_range cfg (st p)" "in_range cfg (st iop)" "in_range cfg (st (last q))"
    using assms(2) by simp_all
  from IoQueue_add_cases [OF assms(1)] show ?thesis
  proof
    assume "st' = st" with a show ?thesis by simp
  next
    assume m: "q \<noteq> [] \<and> canMerge (st (last q)) (st iop) \<and>
          st' = st(last q := (st (last q))\<lparr>ioSize := ioSize (st (last q)) + ioSize (st iop),
                                           blocks := blocks (st (last q)) @ blocks (st iop)\<rparr>,
                   iop := (st iop)\<lparr>blocks := []\<rparr>)"
    then have e: "ioOffset (st (last q)) + int (ioSize (st (last q))) = ioOffset (st iop)"
      by (auto simp: canMerge_def split: if_splits)
    show ?thesis
    proof (cases "p = iop")
      case True with m a show ?thesis by (simp add: in_range_def)
    next
      case False
      show ?thesis
      proof (cases "p = last q")
        case True
        with False m a e show ?thesis by (simp add: in_range_def)
      next
        case l: False
        with False m a show ?thesis by simp
      qed
    qed
  qed
qed


lemma make_io_cases:
  assumes "make_io cfg r blockS i l s = (l2, s2)"
  shows "l_off l2 = l_off l + of_nat (min (blockSize cfg) (l_remaining l)) \<and>
         l_remaining l2 = l_remaining l - min (blockSize cfg) (l_remaining l) \<and>
         nextIo s2 = nextIo s + 1 \<and> aio_writes s2 = aio_writes s \<and>
         (if unat (l_off l + of_nat (min (blockSize cfg) (l_remaining l))) \<le> deviceSize cfg
          then nClipped s2 = nClipped s \<and>
               (\<exists>blk. IoQueue_add
                  ((ios s)(nextIo s := new_Io (sint (l_off l)) (min (blockSize cfg) (l_remaining l))
                                         blk (nextIo s)))
                  (l_tmpIoQ l) (nextIo s) = (ios s2, l_tmpIoQ l2))
          else nClipped s2 = nClipped s + 1 \<and> ios s2 = ios s)"
proof (cases "unat (l_off l + of_nat (min (blockSize cfg) (l_remaining l))) \<le> deviceSize cfg")
  case True
  with assms show ?thesis
    by (cases "isDiscardLog r") (fastforce simp: make_io_def Let_def split: prod.splits)+
next
  case False
  with assms show ?thesis
    by (cases "isDiscardLog r") (auto simp: make_io_def Let_def split: prod.splits)
qed

lemma make_io_locals:
  assumes "make_io cfg r blockS i l s = (l2, s2)" "wrap_ok l"
  shows "unat (l_off l2) = unat (l_off l) + min (blockSize cfg) (l_remaining l)"
    and "l_remaining l2 = l_remaining l - min (blockSize cfg) (l_remaining l)"
    and "wrap_ok l2"
proof -
  let ?sz = "min (blockSize cfg) (l_remaining l)"
  from assms(2) have "unat (l_off l) + ?sz < 2 ^ 63" by (simp add: wrap_ok_def)
  then have "unat (l_off l) + ?sz < 2 ^ 64" by simp
  then have u: "unat (l_off l + of_nat ?sz) = unat (l_off l) + ?sz" by (rule unat_add_small)
  from make_io_cases [OF assms(1)] have c: "l_off l2 = l_off l + of_nat ?sz"
    "l_remaining l2 = l_remaining l - ?sz" by simp_all
  from c u show "unat (l_off l2) = unat (l_off l) + ?sz" by simp
  from c show "l_remaining l2 = l_remaining l - ?sz" by simp
  from c u assms(2) show "wrap_ok l2" by (simp add: wrap_ok_def)
qed

lemma make_io_nClipped:
  assumes "make_io cfg r blockS i l s = (l2, s2)" "wrap_ok l"
  shows "nClipped s2 = nClipped s +
           (if deviceSize cfg < unat (l_off l) + min (blockSize cfg) (l_remaining l) then 1 else 0)"
proof -
  let ?sz = "min (blockSize cfg) (l_remaining l)"
  from assms(2) have "unat (l_off l) + ?sz < 2 ^ 63" by (simp add: wrap_ok_def)
  then have "unat (l_off l) + ?sz < 2 ^ 64" by simp
  then have u: "unat (l_off l + of_nat ?sz) = unat (l_off l) + ?sz" by (rule unat_add_small)
  from make_io_cases [OF assms(1)] u show ?thesis by (simp split: if_splits)
qed

lemma make_io_range_inv:
  assumes "make_io cfg r blockS i l s = (l2, s2)" "wrap_ok l" "range_inv cfg s"
  shows "range_inv cfg s2"
proof -
  let ?sz = "min (blockSize cfg) (l_remaining l)"
  from assms(2) have lt: "unat (l_off l) + ?sz < 2 ^ 63" by (simp add: wrap_ok_def)
  then have "unat (l_off l) + ?sz < 2 ^ 64" by simp
  then have u: "unat (l_off l + of_nat ?sz) = unat (l_off l) + ?sz" by (rule unat_add_small)
  from lt have "unat (l_off l) < 2 ^ 63" by simp
  then have sg: "sint (l_off l) = int (unat (l_off l))" by (rule sint_of_small)
  note c = make_io_cases [OF assms(1)]
  from c have w: "aio_writes s2 = aio_writes s" by simp
  have "in_range cfg (ios s2 p)" for p
  proof (cases "unat (l_off l + of_nat ?sz) \<le> deviceSize cfg")
    case False
    with c assms(3) show ?thesis by (simp add: range_inv_def)
  next
    case True
    with c obtain blk where
      a: "IoQueue_add ((ios s)(nextIo s := new_Io (sint (l_off l)) ?sz blk (nextIo s)))
            (l_tmpIoQ l) (nextIo s) = (ios s2, l_tmpIoQ l2)"
      by auto
    from True u have "int (unat (l_off l)) + int ?sz \<le> int (deviceSize cfg)"
      by (metis of_nat_add of_nat_le_iff)
    with sg have "in_range cfg (new_Io (sint (l_off l)) ?sz blk (nextIo s))"
      by (simp add: in_range_def new_Io_def)
    with assms(3) have
      "\<forall>p. in_range cfg (((ios s)(nextIo s := new_Io (sint (l_off l)) ?sz blk (nextIo s))) p)"
      by (simp add: range_inv_def)
    from IoQueue_add_in_range [OF a this] show ?thesis .
  qed
  with w assms(3) show ?thesis by (simp add: range_inv_def)
qed


lemma wrap_ok_reset [simp]: "wrap_ok (l\<lparr>l_tmpIoQ := q, l_nBlocks := k\<rparr>) = wrap_ok l"
  by (simp add: wrap_ok_def)

text \<open>A property of the state that the steps of the engine and the creation of an IO keep
  holds after the loop of \<open>redoNormalIo\<close>.\<close>

lemma redoNormalIo_loop_invariant:
  assumes ev: "\<And>s s'. evolves s s' \<Longrightarrow> P s \<Longrightarrow> P s'"
    and mk: "\<And>i l s l2 s2. make_io cfg r blockS i l s = (l2, s2) \<Longrightarrow> W l \<Longrightarrow> P s
               \<Longrightarrow> P s2 \<and> W (l2\<lparr>l_tmpIoQ := [], l_nBlocks := 0\<rparr>) \<and> W l2"
  shows "redoNormalIo_loop cfg r blockS n i l s = Some (l', s') \<Longrightarrow> W l \<Longrightarrow> P s \<Longrightarrow> P s'"
proof (induction "n - i" arbitrary: i l s)
  case 0
  then have "\<not> i < n" by simp
  with 0 show ?case by (subst (asm) redoNormalIo_loop.simps) simp
next
  case (Suc k)
  then have lt: "i < n" and k: "k = n - (i + 1)" by simp_all
  obtain l2 s2 where m: "make_io cfg r blockS i l s = (l2, s2)" by (cases "make_io cfg r blockS i l s")
  from mk [OF m Suc.prems(2,3)]
  have p2: "P s2" and w0: "W (l2\<lparr>l_tmpIoQ := [], l_nBlocks := 0\<rparr>)" and w2: "W l2" by simp_all
  from Suc.prems(1) lt have ok: "\<not> (\<not> isDiscardLog r \<and> nBlocks blockS \<le> i)"
    by (subst (asm) redoNormalIo_loop.simps) (auto split: if_splits)
  show ?case
  proof (cases "queueSize cfg div 2 \<le> l_nBlocks l2")
    case False
    with Suc.prems(1) lt ok m
    have "redoNormalIo_loop cfg r blockS n (i + 1) l2 s2 = Some (l', s')"
      by (subst (asm) redoNormalIo_loop.simps) simp
    from Suc.hyps(1) [OF k this w2 p2] show ?thesis .
  next
    case True
    with Suc.prems(1) lt ok m obtain s3 s4 where
      s3: "prepareIos cfg (l_tmpIoQ l2) (l_nBlocks l2) s2 = Some s3" and
      s4: "scheduleIos cfg s3 = Some s4" and
      r: "redoNormalIo_loop cfg r blockS n (i + 1) (l2\<lparr>l_tmpIoQ := [], l_nBlocks := 0\<rparr>) s4
            = Some (l', s')"
      by (subst (asm) redoNormalIo_loop.simps) (auto split: option.splits)
    have "P s3" by (rule ev [OF prepareIos_evolves [OF s3] p2])
    then have "P s4" by (rule ev [OF scheduleIos_evolves [OF s4]])
    from Suc.hyps(1) [OF k r w0 this] show ?thesis .
  qed
qed

lemma redoNormalIo_loop_nClipped:
  "redoNormalIo_loop cfg r blockS n i l s = Some (l', s') \<Longrightarrow> wrap_ok l
   \<Longrightarrow> nClipped s' = nClipped s +
         clip_count (blockSize cfg) (deviceSize cfg) (n - i) (unat (l_off l)) (l_remaining l)"
proof (induction "n - i" arbitrary: i l s)
  case 0
  then have "\<not> i < n" by simp
  with 0 show ?case by (subst (asm) redoNormalIo_loop.simps) simp
next
  case (Suc k)
  then have lt: "i < n" and k: "k = n - (i + 1)" by simp_all
  let ?sz = "min (blockSize cfg) (l_remaining l)"
  obtain l2 s2 where m: "make_io cfg r blockS i l s = (l2, s2)" by (cases "make_io cfg r blockS i l s")
  note loc = make_io_locals [OF m Suc.prems(2)]
  have c2: "nClipped s2 = nClipped s + (if deviceSize cfg < unat (l_off l) + ?sz then 1 else 0)"
    by (rule make_io_nClipped [OF m Suc.prems(2)])
  have cc: "clip_count (blockSize cfg) (deviceSize cfg) (n - i) (unat (l_off l)) (l_remaining l) =
      (if deviceSize cfg < unat (l_off l) + ?sz then 1 else 0) +
      clip_count (blockSize cfg) (deviceSize cfg) k (unat (l_off l2)) (l_remaining l2)"
    using Suc.hyps(2) [symmetric] loc(1,2) by simp
  from Suc.prems(1) lt have ok: "\<not> (\<not> isDiscardLog r \<and> nBlocks blockS \<le> i)"
    by (subst (asm) redoNormalIo_loop.simps) (auto split: if_splits)
  show ?case
  proof (cases "queueSize cfg div 2 \<le> l_nBlocks l2")
    case False
    with Suc.prems(1) lt ok m
    have "redoNormalIo_loop cfg r blockS n (i + 1) l2 s2 = Some (l', s')"
      by (subst (asm) redoNormalIo_loop.simps) simp
    from Suc.hyps(1) [OF k this loc(3)] c2 cc k show ?thesis by simp
  next
    case True
    with Suc.prems(1) lt ok m obtain s3 s4 where
      s3: "prepareIos cfg (l_tmpIoQ l2) (l_nBlocks l2) s2 = Some s3" and
      s4: "scheduleIos cfg s3 = Some s4" and
      r: "redoNormalIo_loop cfg r blockS n (i + 1) (l2\<lparr>l_tmpIoQ := [], l_nBlocks := 0\<rparr>) s4
            = Some (l', s')"
      by (subst (asm) redoNormalIo_loop.simps) (auto split: option.splits)
    have "nClipped s3 = nClipped s2" using prepareIos_evolves [OF s3] by (simp add: evolves_def)
    moreover have "nClipped s4 = nClipped s3" using scheduleIos_evolves [OF s4] by (simp add: evolves_def)
    moreover have "nClipped s' = nClipped s4 +
        clip_count (blockSize cfg) (deviceSize cfg) k (unat (l_off l2)) (l_remaining l2)"
      using Suc.hyps(1) [OF k r] loc(3) k by simp
    ultimately show ?thesis using c2 cc by simp
  qed
qed

lemma initial_locals:
  assumes "no_wrap r"
  shows "wrap_ok \<lparr> l_tmpIoQ = [], l_remaining = ioSizeLb r * LOGICAL_BLOCK_SIZE,
                   l_off = offset r * 512, l_nBlocks = 0 \<rparr>"
    and "unat (offset r * 512) = unat (offset r) * 512"
proof -
  from assms have "unat (offset r) * 512 < 2 ^ 64" by (simp add: no_wrap_def)
  then show u: "unat (offset r * 512) = unat (offset r) * 512" by (rule unat_mult_512)
  from assms u show "wrap_ok \<lparr> l_tmpIoQ = [], l_remaining = ioSizeLb r * LOGICAL_BLOCK_SIZE,
                   l_off = offset r * 512, l_nBlocks = 0 \<rparr>"
    by (simp add: wrap_ok_def no_wrap_def ioSizeLb_def LOGICAL_BLOCK_SIZE_def)
qed

lemma redoNormalIo_invariant:
  assumes ev: "\<And>s s'. evolves s s' \<Longrightarrow> P s \<Longrightarrow> P s'"
    and mk: "\<And>i l s l2 s2. make_io cfg r blockS i l s = (l2, s2) \<Longrightarrow> W l \<Longrightarrow> P s
               \<Longrightarrow> P s2 \<and> W (l2\<lparr>l_tmpIoQ := [], l_nBlocks := 0\<rparr>) \<and> W l2"
    and w0: "W \<lparr> l_tmpIoQ = [], l_remaining = ioSizeLb r * LOGICAL_BLOCK_SIZE,
                 l_off = offset r * 512, l_nBlocks = 0 \<rparr>"
    and run: "redoNormalIo cfg r blockS s = Some s'" and p: "P s"
  shows "P s'"
proof -
  let ?l = "\<lparr> l_tmpIoQ = [], l_remaining = ioSizeLb r * LOGICAL_BLOCK_SIZE,
             l_off = offset r * 512, l_nBlocks = 0 \<rparr>"
  from run obtain l1 s1 s2 where
    a: "redoNormalIo_loop cfg r blockS (ioSizePb r (cfg_pbs cfg)) 0 ?l s = Some (l1, s1)" and
    b: "prepareIos cfg (l_tmpIoQ l1) (l_nBlocks l1) s1 = Some s2" and
    c: "scheduleIos cfg s2 = Some s'"
    by (auto simp: redoNormalIo_def split: option.splits)
  have "P s1"
    by (rule redoNormalIo_loop_invariant [of P cfg r blockS W, OF ev mk a w0 p])
  then have "P s2" by (rule ev [OF prepareIos_evolves [OF b]])
  then show ?thesis by (rule ev [OF scheduleIos_evolves [OF c]])
qed

lemma redoNormalIo_nClipped:
  assumes run: "redoNormalIo cfg r blockS s = Some s'" and nw: "no_wrap r"
  shows "nClipped s' = nClipped s +
           clip_count (blockSize cfg) (deviceSize cfg) (ioSizePb r (cfg_pbs cfg))
             (unat (offset r) * 512) (ioSizeLb r * LOGICAL_BLOCK_SIZE)"
proof -
  let ?l = "\<lparr> l_tmpIoQ = [], l_remaining = ioSizeLb r * LOGICAL_BLOCK_SIZE,
             l_off = offset r * 512, l_nBlocks = 0 \<rparr>"
  from run obtain l1 s1 s2 where
    a: "redoNormalIo_loop cfg r blockS (ioSizePb r (cfg_pbs cfg)) 0 ?l s = Some (l1, s1)" and
    b: "prepareIos cfg (l_tmpIoQ l1) (l_nBlocks l1) s1 = Some s2" and
    c: "scheduleIos cfg s2 = Some s'"
    by (auto simp: redoNormalIo_def split: option.splits)
  from redoNormalIo_loop_nClipped [OF a initial_locals(1) [OF nw]] initial_locals(2) [OF nw]
  have "nClipped s1 = nClipped s +
           clip_count (blockSize cfg) (deviceSize cfg) (ioSizePb r (cfg_pbs cfg))
             (unat (offset r) * 512) (ioSizeLb r * LOGICAL_BLOCK_SIZE)"
    by simp
  moreover have "nClipped s2 = nClipped s1" using prepareIos_evolves [OF b] by (simp add: evolves_def)
  moreover have "nClipped s' = nClipped s2" using scheduleIos_evolves [OF c] by (simp add: evolves_def)
  ultimately show ?thesis by simp
qed

lemma evolves_counters:
  "evolves s (s\<lparr>nPadding := a\<rparr>)" "evolves s (s\<lparr>nDiscard := b\<rparr>)"
  by (simp_all add: evolves_same_writes)

lemma redoPack_invariant:
  assumes ev: "\<And>s s'. evolves s s' \<Longrightarrow> P s \<Longrightarrow> P s'"
    and mk: "\<And>i l s l2 s2. make_io cfg r blockS i l s = (l2, s2) \<Longrightarrow> W l \<Longrightarrow> P s
               \<Longrightarrow> P s2 \<and> W (l2\<lparr>l_tmpIoQ := [], l_nBlocks := 0\<rparr>) \<and> W l2"
    and w0: "W \<lparr> l_tmpIoQ = [], l_remaining = ioSizeLb r * LOGICAL_BLOCK_SIZE,
                 l_off = offset r * 512, l_nBlocks = 0 \<rparr>"
    and run: "redoPack cfg r blockS s = Some s'" and p: "P s"
  shows "P s'"
proof (cases "normal_path cfg r")
  case True
  with run have "redoNormalIo cfg r blockS s = Some s'"
    by (auto simp: redoPack_def normal_path_def split: if_splits)
  from redoNormalIo_invariant [of P cfg r blockS W, OF ev mk w0 this p] show ?thesis .
next
  case False
  with run have "evolves s s'"
    by (auto simp: redoPack_def normal_path_def evolves_counters redoDiscard_evolves split: if_splits)
  then show ?thesis using p by (rule ev)
qed

lemma redoPack_nClipped:
  assumes run: "redoPack cfg r blockS s = Some s'" and nw: "no_wrap r"
  shows "nClipped s' = nClipped s + clipped_of cfg r"
proof (cases "normal_path cfg r")
  case True
  with run have "redoNormalIo cfg r blockS s = Some s'"
    by (auto simp: redoPack_def normal_path_def split: if_splits)
  from redoNormalIo_nClipped [OF this nw] True show ?thesis by (simp add: clipped_of_def)
next
  case False
  with run have "evolves s s'"
    by (auto simp: redoPack_def normal_path_def evolves_counters redoDiscard_evolves split: if_splits)
  with False show ?thesis by (simp add: evolves_def clipped_of_def)
qed

lemma redoPacks_invariant:
  assumes ev: "\<And>s s'. evolves s s' \<Longrightarrow> P s \<Longrightarrow> P s'"
    and mk: "\<And>r blockS i l s l2 s2. make_io cfg r blockS i l s = (l2, s2) \<Longrightarrow> W l \<Longrightarrow> P s
               \<Longrightarrow> P s2 \<and> W (l2\<lparr>l_tmpIoQ := [], l_nBlocks := 0\<rparr>) \<and> W l2"
    and w0: "\<And>r. N r \<Longrightarrow> W \<lparr> l_tmpIoQ = [], l_remaining = ioSizeLb r * LOGICAL_BLOCK_SIZE,
                               l_off = offset r * 512, l_nBlocks = 0 \<rparr>"
  shows "redoPacks cfg rs s = Some s' \<Longrightarrow> list_all (\<lambda>x. N (fst x)) rs \<Longrightarrow> P s \<Longrightarrow> P s'"
proof (induction rs arbitrary: s)
  case Nil
  then show ?case by simp
next
  case (Cons x rs)
  obtain r blockS where x: "x = (r, blockS)" by (cases x)
  with Cons.prems(1) obtain s1 where
    a: "redoPack cfg r blockS s = Some s1" and b: "redoPacks cfg rs s1 = Some s'"
    by (auto split: option.splits)
  from Cons.prems(2) x have nw: "N r" and rest: "list_all (\<lambda>x. N (fst x)) rs" by simp_all
  have "P s1" by (rule redoPack_invariant [of P cfg r blockS W, OF ev mk w0 [OF nw] a Cons.prems(3)])
  from Cons.IH [OF b rest this] show ?case .
qed

lemma redoPacks_nClipped:
  "redoPacks cfg rs s = Some s' \<Longrightarrow> list_all (\<lambda>x. no_wrap (fst x)) rs
   \<Longrightarrow> nClipped s' = nClipped s + sum_list (map (\<lambda>x. clipped_of cfg (fst x)) rs)"
proof (induction rs arbitrary: s)
  case Nil
  then show ?case by simp
next
  case (Cons x rs)
  obtain r blockS where x: "x = (r, blockS)" by (cases x)
  with Cons.prems(1) obtain s1 where
    a: "redoPack cfg r blockS s = Some s1" and b: "redoPacks cfg rs s1 = Some s'"
    by (auto split: option.splits)
  from Cons.prems(2) x have nw: "no_wrap r" and rest: "list_all (\<lambda>x. no_wrap (fst x)) rs" by simp_all
  from redoPack_nClipped [OF a nw] Cons.IH [OF b rest] x show ?case by simp
qed

lemma finishApply_evolves:
  assumes "finishApply cfg s = Some s'"
  shows "evolves s s'"
proof -
  from assms obtain s1 where a: "submitIos s = Some s1" and b: "waitForAllPendingIos cfg s1 = Some s'"
    by (auto simp: finishApply_def split: option.splits)
  from evolves_trans [OF submitIos_evolves [OF a] waitForAllPendingIos_evolves [OF b]]
  show ?thesis .
qed

lemma applyFrom_invariant:
  assumes ev: "\<And>s s'. evolves s s' \<Longrightarrow> P s \<Longrightarrow> P s'"
    and mk: "\<And>r blockS i l s l2 s2. make_io cfg r blockS i l s = (l2, s2) \<Longrightarrow> W l \<Longrightarrow> P s
               \<Longrightarrow> P s2 \<and> W (l2\<lparr>l_tmpIoQ := [], l_nBlocks := 0\<rparr>) \<and> W l2"
    and w0: "\<And>r. N r \<Longrightarrow> W \<lparr> l_tmpIoQ = [], l_remaining = ioSizeLb r * LOGICAL_BLOCK_SIZE,
                               l_off = offset r * 512, l_nBlocks = 0 \<rparr>"
    and run: "applyFrom cfg rs s = Some s'" and nw: "list_all (\<lambda>x. N (fst x)) rs" and p: "P s"
  shows "P s'"
proof -
  from run obtain s1 where a: "redoPacks cfg rs s = Some s1" and b: "finishApply cfg s1 = Some s'"
    by (auto simp: applyFrom_def split: option.splits)
  have "P s1" by (rule redoPacks_invariant [of P cfg W N, OF ev mk w0 a nw p])
  then show ?thesis by (rule ev [OF finishApply_evolves [OF b]])
qed

lemma applyFrom_nClipped:
  assumes run: "applyFrom cfg rs s = Some s'" and nw: "list_all (\<lambda>x. no_wrap (fst x)) rs"
  shows "nClipped s' = nClipped s + sum_list (map (\<lambda>x. clipped_of cfg (fst x)) rs)"
proof -
  from run obtain s1 where a: "redoPacks cfg rs s = Some s1" and b: "finishApply cfg s1 = Some s'"
    by (auto simp: applyFrom_def split: option.splits)
  from finishApply_evolves [OF b] have "nClipped s' = nClipped s1" by (simp add: evolves_def)
  with redoPacks_nClipped [OF a nw] show ?thesis by simp
qed

lemma applyFrom_range_inv:
  assumes "applyFrom cfg rs s = Some s'" "list_all (\<lambda>x. no_wrap (fst x)) rs" "range_inv cfg s"
  shows "range_inv cfg s'"
proof (rule applyFrom_invariant [of "range_inv cfg" cfg wrap_ok no_wrap, OF _ _ _ assms])
  show "\<And>s s'. evolves s s' \<Longrightarrow> range_inv cfg s \<Longrightarrow> range_inv cfg s'"
    by (rule evolves_range_inv)
  show "\<And>r blockS i l s l2 s2. make_io cfg r blockS i l s = (l2, s2) \<Longrightarrow> wrap_ok l \<Longrightarrow> range_inv cfg s
     \<Longrightarrow> range_inv cfg s2 \<and> wrap_ok (l2\<lparr>l_tmpIoQ := [], l_nBlocks := 0\<rparr>) \<and> wrap_ok l2"
    by (simp add: make_io_range_inv make_io_locals(3))
  show "\<And>r. no_wrap r \<Longrightarrow> wrap_ok \<lparr> l_tmpIoQ = [], l_remaining = ioSizeLb r * LOGICAL_BLOCK_SIZE,
                               l_off = offset r * 512, l_nBlocks = 0 \<rparr>"
    by (rule initial_locals(1))
qed


lemma range_inv_init: "range_inv cfg init_state"
  by (simp add: range_inv_def init_state_def in_range_def null_Io_def)

section \<open>Replays evaluated\<close>

text \<open>The equations that a replay of given records unfolds to, and three replays with their
  statistics and writes: a record that ends beyond the device, with blocks of 4096 and of 512
  bytes, and two records that write the same blocks.\<close>

lemmas redo_eval = readAndApply_def applyFrom_def redoPack_def redoNormalIo_def
  redoNormalIo_loop.simps make_io_def IoQueue_add_def IoQueue_tryMerge_def tryMerge_def canMerge_def
  prepareIos_def prepareIos_wait.simps enqueue_io_def ins_def search_range_def
  isOverlapped_def isOverwrittenBy_def overwritten_def scheduleIos_def insert_by_offset_def
  submitIos_def finishApply_def waitForAllPendingIos.simps waitForAnIoCompletion_def
  complete_io_def del_def push_ready_def bytesToPb_def capacity_pb_def LOGICAL_BLOCK_SIZE_def
  ioSizePb_def ioSizeLb_def isPadding_def isDiscardLog_def test_bit_u32_def
  LOG_RECORD_PADDING_def LOG_RECORD_DISCARD_def nBlocks_def new_Io_def init_state_def
  pair_less_def Let_def
  ex_config_def BUFFER_SIZE_def ex_write_def ex_block_def ex_data_def outcome_def

lemma s6_4096:
  "map_option outcome (readAndApply (ex_config 4096 51200) [(ex_write 99 2, ex_data 4096 [ex_block 0 4096 1])])
   = Some (0, 0, 1, [])"
  by (simp add: redo_eval)

lemma s6_512:
  "map_option outcome (readAndApply (ex_config 512 51200)
      [(ex_write 99 2, ex_data 512 [ex_block 0 512 1, ex_block 512 512 1])])
   = Some (1, 0, 1, [\<lparr> w_io = 0, w_offset = 50688, w_size = 512, w_data = replicate 512 1 \<rparr>])"
  by (simp add: redo_eval)


section \<open>The counting of the IOs that complete\<close>














text \<open>The creation of an IO that ends beyond the device changes only the counters.\<close>

lemma make_io_clipped:
  assumes "make_io cfg r blockS i l s = (l2, s2)" "wrap_ok l"
    "deviceSize cfg < unat (l_off l) + min (blockSize cfg) (l_remaining l)"
  shows "ios s2 = ios s \<and> l_tmpIoQ l2 = l_tmpIoQ l \<and> l_nBlocks l2 = l_nBlocks l \<and>
         aio_writes s2 = aio_writes s \<and> ioQ s2 = ioQ s \<and> readyIoQ s2 = readyIoQ s \<and>
         submitIoQ s2 = submitIoQ s \<and> nClipped s2 = nClipped s + 1 \<and> nWritten s2 = nWritten s"
proof -
  let ?sz = "min (blockSize cfg) (l_remaining l)"
  from assms(2) have "unat (l_off l) + ?sz < 2 ^ 63" by (simp add: wrap_ok_def)
  then have "unat (l_off l) + ?sz < 2 ^ 64" by simp
  then have u: "unat (l_off l + of_nat ?sz) = unat (l_off l) + ?sz" by (rule unat_add_small)
  with assms(3) have "\<not> unat (l_off l + of_nat ?sz) \<le> deviceSize cfg" by simp
  with assms(1) show ?thesis
    by (cases "isDiscardLog r") (auto simp: make_io_def Let_def)
qed



section \<open>Elision of overwritten IOs\<close>



section \<open>Clipping at the end of the device\<close>

text \<open>A record of two logical blocks at the offset 99 and a device of 100 logical blocks
  whose blocks have 512 bytes: the record is cut into two IOs, the second is clipped and the
  first is written, so the replay ends with one IO clipped and one written.\<close>

theorem clipped_record_partly_written:
  "\<exists>t. readAndApply (ex_config 512 51200)
          [(ex_write 99 2, ex_data 512 [ex_block 0 512 1, ex_block 512 512 1])] = Some t \<and>
       nClipped t = 1 \<and> nWritten t = 1 \<and>
       aio_writes t = [\<lparr> w_io = 0, w_offset = 50688, w_size = 512, w_data = replicate 512 1 \<rparr>]"
proof -
  let ?run = "readAndApply (ex_config 512 51200)
          [(ex_write 99 2, ex_data 512 [ex_block 0 512 1, ex_block 512 512 1])]"
  from s6_512 obtain t where "?run = Some t"
    "outcome t = (1, 0, 1, [\<lparr> w_io = 0, w_offset = 50688, w_size = 512, w_data = replicate 512 1 \<rparr>])"
    by (cases ?run) simp_all
  then show ?thesis by (simp add: outcome_def)
qed

text \<open>C5, amended. A record is cut into one IO for each of its physical blocks. An IO that
  ends beyond the device, while the byte offsets do not wrap, is dropped entirely: it enters
  neither the store nor a queue, nothing is written, and \<open>nClipped\<close> counts it. In a replay of
  records whose byte ranges stay under \<open>2 ^ 63\<close>, \<open>nClipped\<close> is the number of the IOs of the
  records that end beyond the device, and every write issued lies within the device. For a
  device of 100 logical blocks with blocks of 4096 bytes and a record of two logical blocks at
  the offset 99, the record is one IO, and the replay ends with one IO clipped, none written
  and no write issued.\<close>

theorem out_of_range_io_clipped:
  "(wrap_ok l \<and> deviceSize cfg < unat (l_off l) + min (blockSize cfg) (l_remaining l) \<and>
    make_io cfg r blockS i l s = (l2, s2) \<longrightarrow>
      ios s2 = ios s \<and> l_tmpIoQ l2 = l_tmpIoQ l \<and> l_nBlocks l2 = l_nBlocks l \<and>
      aio_writes s2 = aio_writes s \<and> ioQ s2 = ioQ s \<and> readyIoQ s2 = readyIoQ s \<and>
      submitIoQ s2 = submitIoQ s \<and> nClipped s2 = nClipped s + 1 \<and> nWritten s2 = nWritten s) \<and>
   (list_all (\<lambda>x. no_wrap (fst x)) rs \<and> readAndApply cfg rs = Some t \<longrightarrow>
      nClipped t = sum_list (map (\<lambda>x. clipped_of cfg (fst x)) rs) \<and>
      list_all (write_in_range cfg) (aio_writes t)) \<and>
   (\<exists>t. readAndApply (ex_config 4096 51200) [(ex_write 99 2, ex_data 4096 [ex_block 0 4096 1])]
           = Some t \<and>
        nClipped t = 1 \<and> nWritten t = 0 \<and> aio_writes t = [])"
proof (intro conjI)
  show "wrap_ok l \<and> deviceSize cfg < unat (l_off l) + min (blockSize cfg) (l_remaining l) \<and>
    make_io cfg r blockS i l s = (l2, s2) \<longrightarrow>
      ios s2 = ios s \<and> l_tmpIoQ l2 = l_tmpIoQ l \<and> l_nBlocks l2 = l_nBlocks l \<and>
      aio_writes s2 = aio_writes s \<and> ioQ s2 = ioQ s \<and> readyIoQ s2 = readyIoQ s \<and>
      submitIoQ s2 = submitIoQ s \<and> nClipped s2 = nClipped s + 1 \<and> nWritten s2 = nWritten s"
    using make_io_clipped [of cfg r blockS i l s l2 s2] by blast
next
  show "list_all (\<lambda>x. no_wrap (fst x)) rs \<and> readAndApply cfg rs = Some t \<longrightarrow>
      nClipped t = sum_list (map (\<lambda>x. clipped_of cfg (fst x)) rs) \<and>
      list_all (write_in_range cfg) (aio_writes t)"
  proof
    assume a: "list_all (\<lambda>x. no_wrap (fst x)) rs \<and> readAndApply cfg rs = Some t"
    then have run: "applyFrom cfg rs init_state = Some t" by (simp add: readAndApply_def)
    from a have nw: "list_all (\<lambda>x. no_wrap (fst x)) rs" by simp
    from applyFrom_nClipped [OF run nw]
    have "nClipped t = sum_list (map (\<lambda>x. clipped_of cfg (fst x)) rs)" by (simp add: init_state_def)
    moreover from applyFrom_range_inv [OF run nw range_inv_init]
    have "list_all (write_in_range cfg) (aio_writes t)" by (simp add: range_inv_def)
    ultimately show "nClipped t = sum_list (map (\<lambda>x. clipped_of cfg (fst x)) rs) \<and>
      list_all (write_in_range cfg) (aio_writes t)" by simp
  qed
next
  let ?run = "readAndApply (ex_config 4096 51200) [(ex_write 99 2, ex_data 4096 [ex_block 0 4096 1])]"
  from s6_4096 obtain t where "?run = Some t" "outcome t = (0, 0, 1, [])"
    by (cases ?run) simp_all
  then show "\<exists>t. ?run = Some t \<and> nClipped t = 1 \<and> nWritten t = 0 \<and> aio_writes t = []"
    by (simp add: outcome_def)
qed

theorem out_of_range_io_clipped_witness:
  "wrap_ok \<lparr> l_tmpIoQ = [], l_remaining = 1024, l_off = 50688, l_nBlocks = 0 \<rparr> \<and>
   deviceSize (ex_config 4096 51200) < unat (50688 :: u64) + min (blockSize (ex_config 4096 51200)) 1024 \<and>
   nClipped (snd (make_io (ex_config 4096 51200) (ex_write 99 2) (ex_data 4096 [ex_block 0 4096 1]) 0
                    \<lparr> l_tmpIoQ = [], l_remaining = 1024, l_off = 50688, l_nBlocks = 0 \<rparr> init_state)) = 1 \<and>
   ios (snd (make_io (ex_config 4096 51200) (ex_write 99 2) (ex_data 4096 [ex_block 0 4096 1]) 0
                    \<lparr> l_tmpIoQ = [], l_remaining = 1024, l_off = 50688, l_nBlocks = 0 \<rparr> init_state))
     = ios init_state \<and>
   list_all (\<lambda>x. no_wrap (fst x)) [(ex_write 99 2, ex_data 4096 [ex_block 0 4096 1])] \<and>
   sum_list (map (\<lambda>x. clipped_of (ex_config 4096 51200) (fst x))
               [(ex_write 99 2, ex_data 4096 [ex_block 0 4096 1])]) = 1 \<and>
   (\<exists>t. readAndApply (ex_config 4096 51200) [(ex_write 99 2, ex_data 4096 [ex_block 0 4096 1])]
           = Some t \<and>
        nClipped t = 1 \<and> list_all (write_in_range (ex_config 4096 51200)) (aio_writes t))"
proof -
  let ?C = "ex_config 4096 51200"
  let ?R = "[(ex_write 99 2, ex_data 4096 [ex_block 0 4096 1])]"
  let ?L = "\<lparr> l_tmpIoQ = [], l_remaining = 1024, l_off = 50688 :: u64, l_nBlocks = 0 \<rparr>"
  let ?m = "make_io ?C (ex_write 99 2) (ex_data 4096 [ex_block 0 4096 1]) 0 ?L init_state"
  have w: "wrap_ok ?L" by (simp add: wrap_ok_def)
  have d: "deviceSize ?C < unat (l_off ?L) + min (blockSize ?C) (l_remaining ?L)"
    by (simp add: ex_config_def)
  have m: "?m = (fst ?m, snd ?m)" by simp
  have nw: "list_all (\<lambda>x. no_wrap (fst x)) ?R" by (simp add: no_wrap_def ex_write_def)
  have c: "sum_list (map (\<lambda>x. clipped_of ?C (fst x)) ?R) = 1"
    by (simp add: clipped_of_def normal_path_def redo_eval)
  obtain t where t: "readAndApply ?C ?R = Some t"
    using s6_4096 by (cases "readAndApply ?C ?R") simp_all
  note th = out_of_range_io_clipped [of ?L ?C "ex_write 99 2" "ex_data 4096 [ex_block 0 4096 1]" 0
      init_state "fst ?m" "snd ?m" ?R t]
  from th w d m have a: "ios (snd ?m) = ios init_state" "nClipped (snd ?m) = nClipped init_state + 1"
    by simp_all
  from th nw t c have b: "nClipped t = 1" "list_all (write_in_range ?C) (aio_writes t)"
    by simp_all
  from a have a': "nClipped (snd ?m) = 1" by (simp add: init_state_def)
  from w d a(1) a' nw c t b show ?thesis by simp
qed

end
